theory Spec2Isabelle
  imports Main "HOL-Library.Word"
begin

section \<open>YandereOS kernel v3.5: data model\<close>

text \<open>
  The kernel is a class of static members (\<^verbatim>\<open>kernel.h\<close>, \<^verbatim>\<open>class Kernel\<close>); here its
  state is the record \<open>Kernel\<close> and every member function takes the state and returns
  the new one. The configuration is the one of the board the header is written for
  (\<^verbatim>\<open>ARDUINO_GIGA\<close>, a 32-bit ARM): \<^verbatim>\<open>size_t\<close> and \<^verbatim>\<open>uint32_t\<close> have 32 bits,
  \<^verbatim>\<open>sizeof(MemoryBlock)\<close> is 16 and \<^verbatim>\<open>KERNEL_HEAP_SIZE\<close> is 512 KB.

  \<^item> \<^verbatim>\<open>uint32_t\<close> clock values are \<open>32 word\<close>: subtraction wraps, comparison is unsigned.
  \<^item> \<^verbatim>\<open>size_t\<close> values are \<open>nat\<close> below \<open>2 ^ 32\<close>, with the wrap-around of every
    addition and subtraction written out (\<open>sz_add\<close>, \<open>sz_sub\<close>).
  \<^item> \<^verbatim>\<open>int\<close> values are \<open>int\<close>; array indices that the code only ever takes from a
    loop counter (\<^verbatim>\<open>currentTaskId\<close>, a queue's \<^verbatim>\<open>head\<close> and \<^verbatim>\<open>tail\<close>) are \<open>nat\<close>.
  \<^item> A C array is a list of the array's length; a pointer argument is an \<open>option\<close>
    (\<open>None\<close> is \<^verbatim>\<open>nullptr\<close>) holding what it points to.
  \<^item> \<^verbatim>\<open>millis()\<close> is an input: each function takes the clock readings it makes.
  \<^item> \<^verbatim>\<open>Serial\<close> output is diagnostic only and is left out.

  Field names follow the source; a field whose name several structs share, or that is a
  HOL constant, carries a prefix (\<open>blockSize\<close> for \<^verbatim>\<open>MemoryBlock::size\<close>, \<open>semValue\<close>
  for \<^verbatim>\<open>Semaphore::value\<close>, \<open>taskId\<close> for \<^verbatim>\<open>Task::id\<close>, ...).
\<close>

type_synonym byte = "8 word"
type_synonym uint32 = "32 word"

abbreviation (input) MAX_TASKS :: nat where "MAX_TASKS \<equiv> 8"
abbreviation (input) MAX_FILE_HANDLES :: nat where "MAX_FILE_HANDLES \<equiv> 16"
abbreviation (input) MAX_DIR_HANDLES :: nat where "MAX_DIR_HANDLES \<equiv> 4"
abbreviation (input) MAX_MESSAGE_QUEUE_SIZE :: nat where "MAX_MESSAGE_QUEUE_SIZE \<equiv> 16"
abbreviation (input) MAX_SEMAPHORES :: nat where "MAX_SEMAPHORES \<equiv> 8"
abbreviation (input) MAX_STACK_TRACE_DEPTH :: nat where "MAX_STACK_TRACE_DEPTH \<equiv> 8"
abbreviation (input) WATCHDOG_TIMEOUT_MS :: uint32 where "WATCHDOG_TIMEOUT_MS \<equiv> 5000"
abbreviation (input) KERNEL_HEAP_SIZE :: nat where "KERNEL_HEAP_SIZE \<equiv> 524288"
abbreviation (input) MESSAGE_DATA_SIZE :: nat where "MESSAGE_DATA_SIZE \<equiv> 64"

text \<open>\<^verbatim>\<open>enum SyscallResult\<close>.\<close>

abbreviation (input) SYS_OK :: int where "SYS_OK \<equiv> 0"
abbreviation (input) SYS_ERR_INVALID_CALL :: int where "SYS_ERR_INVALID_CALL \<equiv> - 1"
abbreviation (input) SYS_ERR_PERMISSION :: int where "SYS_ERR_PERMISSION \<equiv> - 2"
abbreviation (input) SYS_ERR_NO_MEMORY :: int where "SYS_ERR_NO_MEMORY \<equiv> - 3"
abbreviation (input) SYS_ERR_NOT_FOUND :: int where "SYS_ERR_NOT_FOUND \<equiv> - 4"
abbreviation (input) SYS_ERR_IO_ERROR :: int where "SYS_ERR_IO_ERROR \<equiv> - 5"
abbreviation (input) SYS_ERR_INVALID_PARAM :: int where "SYS_ERR_INVALID_PARAM \<equiv> - 6"
abbreviation (input) SYS_ERR_TIMEOUT :: int where "SYS_ERR_TIMEOUT \<equiv> - 7"
abbreviation (input) SYS_ERR_WOULD_BLOCK :: int where "SYS_ERR_WOULD_BLOCK \<equiv> - 8"

datatype TaskState =
  TASK_EMPTY | TASK_READY | TASK_RUNNING | TASK_SLEEPING | TASK_BLOCKED | TASK_ZOMBIE

text \<open>
  A function pointer \<^verbatim>\<open>void (*)()\<close> is the number of the function it points to;
  \<^verbatim>\<open>nullptr\<close> is \<open>None\<close>.
\<close>

type_synonym entry_point = "nat option"

record StackFrame =
  returnAddress :: entry_point
  functionName :: string

record Task =
  taskId :: int
  taskName :: string
  state :: TaskState
  entryPoint :: entry_point
  sleepUntil :: uint32
  lastRun :: uint32
  lastYield :: uint32
  priority :: int
  taskFileHandles :: "bool list"
  taskDirHandles :: "bool list"
  memoryUsed :: nat
  stackTrace :: "StackFrame list"
  stackTraceDepth :: int
  canAccessSD :: bool
  canAccessDisplay :: bool
  canCreateTasks :: bool
  canAccessGPIO :: bool
  canAccessI2C :: bool
  canAccessSPI :: bool

record MemoryBlock =
  blockSize :: nat
  ownerTaskId :: int
  inUse :: bool
  handleId :: int

record Message =
  fromTaskId :: int
  toTaskId :: int
  msgData :: "byte list"
  msgLength :: nat
  timestamp :: uint32
  valid :: bool

record MessageQueue =
  messages :: "Message list"
  head :: nat
  tail :: nat
  count :: int

record Semaphore =
  semValue :: int
  maxValue :: int
  semInUse :: bool
  semOwnerTaskId :: nat
  semName :: string

text \<open>
  The \<^verbatim>\<open>File\<close> object of the SD library is opaque: \<open>None\<close> is a \<^verbatim>\<open>File\<close> that
  tests false, \<open>Some path\<close> one that is open on \<open>path\<close>.
\<close>

type_synonym File = "string option"

record FileHandle =
  fhFile :: File
  fhOwnerTaskId :: nat
  fhInUse :: bool
  canWrite :: bool

record DirHandle =
  dhDir :: File
  dhOwnerTaskId :: nat
  dhInUse :: bool

record DirEntry =
  entryName :: string
  isDirectory :: bool
  entrySize :: nat

text \<open>
  The heap is a byte array in the source. The model keeps, for every offset, the block
  header the kernel last wrote there, as long as no later write touched its bytes:
  \<open>None\<close> at an offset means that the bytes there are payload or were never a header,
  and the model says nothing about what reading a header from them gives.
\<close>

type_synonym heap = "nat \<Rightarrow> MemoryBlock option"

record Kernel =
  tasks :: "Task list"
  currentTaskId :: nat
  nextTaskId :: int
  kernelHeap :: heap
  heapUsed :: nat
  fileHandles :: "FileHandle list"
  dirHandles :: "DirHandle list"
  sdInitialized :: bool
  messageQueues :: "MessageQueue list"
  semaphores :: "Semaphore list"
  watchdogEnabled :: bool
  watchdogLastCheck :: uint32
  initialized :: bool
  bootTime :: uint32

section \<open>Static initialisation and \<^verbatim>\<open>Kernel::init\<close>\<close>

text \<open>
  The static members start from the values of their initialisers; arrays without one are
  zero-initialised, so every task slot starts \<open>TASK_EMPTY\<close> (the enumerator 0).
\<close>

definition zeroTask :: Task where
  "zeroTask = \<lparr> taskId = 0, taskName = [], state = TASK_EMPTY, entryPoint = None,
     sleepUntil = 0, lastRun = 0, lastYield = 0, priority = 0,
     taskFileHandles = replicate MAX_FILE_HANDLES False,
     taskDirHandles = replicate MAX_DIR_HANDLES False,
     memoryUsed = 0,
     stackTrace = replicate MAX_STACK_TRACE_DEPTH \<lparr> returnAddress = None, functionName = [] \<rparr>,
     stackTraceDepth = 0,
     canAccessSD = False, canAccessDisplay = False, canCreateTasks = False,
     canAccessGPIO = False, canAccessI2C = False, canAccessSPI = False \<rparr>"

definition zeroMessage :: Message where
  "zeroMessage = \<lparr> fromTaskId = 0, toTaskId = 0, msgData = replicate MESSAGE_DATA_SIZE 0,
     msgLength = 0, timestamp = 0, valid = False \<rparr>"

definition zeroQueue :: MessageQueue where
  "zeroQueue = \<lparr> messages = replicate MAX_MESSAGE_QUEUE_SIZE zeroMessage,
     head = 0, tail = 0, count = 0 \<rparr>"

definition zeroSemaphore :: Semaphore where
  "zeroSemaphore = \<lparr> semValue = 0, maxValue = 0, semInUse = False, semOwnerTaskId = 0,
     semName = [] \<rparr>"

definition zeroFileHandle :: FileHandle where
  "zeroFileHandle = \<lparr> fhFile = None, fhOwnerTaskId = 0, fhInUse = False, canWrite = False \<rparr>"

definition zeroDirHandle :: DirHandle where
  "zeroDirHandle = \<lparr> dhDir = None, dhOwnerTaskId = 0, dhInUse = False \<rparr>"

definition staticKernel :: Kernel where
  "staticKernel = \<lparr> tasks = replicate MAX_TASKS zeroTask, currentTaskId = 0, nextTaskId = 1,
     kernelHeap = (\<lambda>_. None), heapUsed = 0,
     fileHandles = replicate MAX_FILE_HANDLES zeroFileHandle,
     dirHandles = replicate MAX_DIR_HANDLES zeroDirHandle,
     sdInitialized = False,
     messageQueues = replicate MAX_TASKS zeroQueue,
     semaphores = replicate MAX_SEMAPHORES zeroSemaphore,
     watchdogEnabled = True, watchdogLastCheck = 0,
     initialized = False, bootTime = 0 \<rparr>"

text \<open>
  \<^verbatim>\<open>Kernel::init\<close>. \<open>sdOk\<close> is the result of \<^verbatim>\<open>SD.begin\<close>; \<open>t0\<close>, \<open>t1\<close>, \<open>t2\<close> are the
  three clock readings, in the order the code makes them.
\<close>

definition init :: "Kernel \<Rightarrow> bool \<Rightarrow> uint32 \<Rightarrow> uint32 \<Rightarrow> uint32 \<Rightarrow> bool \<times> Kernel" where
  "init k sdOk t0 t1 t2 =
    (if initialized k then (True, k)
     else
       let ts1 = map (\<lambda>t. t\<lparr> state := TASK_EMPTY, taskId := - 1, stackTraceDepth := 0 \<rparr>) (tasks k);
           fhs = map (\<lambda>h. h\<lparr> fhInUse := False \<rparr>) (fileHandles k);
           dhs = map (\<lambda>h. h\<lparr> dhInUse := False \<rparr>) (dirHandles k);
           mqs = map (\<lambda>q. q\<lparr> head := 0, tail := 0, count := 0,
                              messages := map (\<lambda>m. m\<lparr> valid := False \<rparr>) (messages q) \<rparr>)
                     (messageQueues k);
           sems = map (\<lambda>s. s\<lparr> semInUse := False \<rparr>) (semaphores k);
           idle = (ts1 ! 0)\<lparr> taskId := 0, taskName := ''idle'', state := TASK_READY,
                     priority := 0, lastYield := t0,
                     canAccessSD := False, canAccessDisplay := False, canCreateTasks := False,
                     canAccessGPIO := False, canAccessI2C := False, canAccessSPI := False,
                     memoryUsed := 0 \<rparr>
       in (True, k\<lparr> tasks := ts1[0 := idle], fileHandles := fhs, dirHandles := dhs,
                    messageQueues := mqs, semaphores := sems, heapUsed := 0,
                    sdInitialized := (if sdOk then True else sdInitialized k),
                    currentTaskId := 0, bootTime := t1, watchdogLastCheck := t2,
                    initialized := True \<rparr>))"

text \<open>The state right after boot, with the SD card mounted and the clock at 0.\<close>

definition bootKernel :: Kernel where
  "bootKernel = snd (init staticKernel True 0 0 0)"

section \<open>Task management\<close>

text \<open>\<^verbatim>\<open>Kernel::allocateTaskId\<close>: the first empty slot from 1 on, or \<open>-1\<close>.\<close>

definition allocateTaskId :: "Kernel \<Rightarrow> int" where
  "allocateTaskId k =
     (case List.find (\<lambda>i. state (tasks k ! i) = TASK_EMPTY) [1..<MAX_TASKS] of
        Some i \<Rightarrow> int i
      | None \<Rightarrow> - 1)"

definition getCurrentTask :: "Kernel \<Rightarrow> Task" where
  "getCurrentTask k = tasks k ! currentTaskId k"

text \<open>\<^verbatim>\<open>Kernel::getTask\<close>: the slot's index, or \<open>None\<close> for \<^verbatim>\<open>nullptr\<close>.\<close>

definition getTask :: "Kernel \<Rightarrow> int \<Rightarrow> nat option" where
  "getTask k tid =
     (if tid < 0 \<or> tid \<ge> int MAX_TASKS then None
      else if state (tasks k ! nat tid) = TASK_EMPTY then None
      else Some (nat tid))"

text \<open>\<^verbatim>\<open>Kernel::captureStackTrace\<close> records the entry point as the only frame.\<close>

definition captureStackTrace :: "Task \<Rightarrow> Task" where
  "captureStackTrace task =
     task\<lparr> stackTraceDepth := 1,
           stackTrace := (stackTrace task)[0 := \<lparr> returnAddress = entryPoint task,
                                                 functionName = taskName task \<rparr>] \<rparr>"

text \<open>\<^verbatim>\<open>Kernel::createTask(name, entryPoint)\<close>; \<open>now\<close> is the reading of \<^verbatim>\<open>millis()\<close>.\<close>

definition createTask :: "Kernel \<Rightarrow> string \<Rightarrow> entry_point \<Rightarrow> uint32 \<Rightarrow> int \<times> Kernel" where
  "createTask k name entry now =
    (let tid = allocateTaskId k in
     if tid < 0 then (SYS_ERR_NO_MEMORY, k)
     else
       let task = (tasks k ! nat tid)\<lparr>
             taskId := tid, taskName := name, state := TASK_READY, entryPoint := entry,
             priority := 10, lastRun := 0, lastYield := now, sleepUntil := 0,
             memoryUsed := 0, stackTraceDepth := 0,
             taskFileHandles := replicate MAX_FILE_HANDLES False,
             taskDirHandles := replicate MAX_DIR_HANDLES False,
             canAccessSD := True, canAccessDisplay := True, canCreateTasks := False,
             canAccessGPIO := True, canAccessI2C := False, canAccessSPI := False \<rparr>
       in (tid, k\<lparr> tasks := (tasks k)[nat tid := captureStackTrace task] \<rparr>))"

text \<open>
  \<^verbatim>\<open>Kernel::freeFileHandle\<close> and \<^verbatim>\<open>Kernel::freeDirHandle\<close>: close the file of a handle in
  use and release the entry. Closing leaves a \<^verbatim>\<open>File\<close> that tests false.
\<close>

definition freeFileHandle :: "Kernel \<Rightarrow> int \<Rightarrow> Kernel" where
  "freeFileHandle k h =
     (if h < 0 \<or> h \<ge> int MAX_FILE_HANDLES then k
      else if fhInUse (fileHandles k ! nat h)
        then k\<lparr> fileHandles := (fileHandles k)[nat h :=
                  (fileHandles k ! nat h)\<lparr> fhFile := None, fhInUse := False \<rparr>] \<rparr>
        else k)"

definition freeDirHandle :: "Kernel \<Rightarrow> int \<Rightarrow> Kernel" where
  "freeDirHandle k h =
     (if h < 0 \<or> h \<ge> int MAX_DIR_HANDLES then k
      else if dhInUse (dirHandles k ! nat h)
        then k\<lparr> dirHandles := (dirHandles k)[nat h :=
                  (dirHandles k ! nat h)\<lparr> dhDir := None, dhInUse := False \<rparr>] \<rparr>
        else k)"

text \<open>
  \<^verbatim>\<open>Kernel::killTask\<close>. The two loops release every handle whose bit the task holds;
  then the slot is marked empty. Nothing else of the slot is reset, and the heap is not
  touched.
\<close>

definition killTask :: "Kernel \<Rightarrow> int \<Rightarrow> Kernel" where
  "killTask k tid =
     (case getTask k tid of
        None \<Rightarrow> k
      | Some t \<Rightarrow>
          if tid = 0 then k
          else
            let task = tasks k ! t;
                k1 = fold (\<lambda>i kk. if taskFileHandles task ! i then freeFileHandle kk (int i) else kk)
                       [0..<MAX_FILE_HANDLES] k;
                k2 = fold (\<lambda>i kk. if taskDirHandles task ! i then freeDirHandle kk (int i) else kk)
                       [0..<MAX_DIR_HANDLES] k1
            in k2\<lparr> tasks := (tasks k2)[t := (tasks k2 ! t)\<lparr> state := TASK_EMPTY, taskId := - 1 \<rparr>] \<rparr>)"

section \<open>Watchdog and scheduler\<close>

definition enableWatchdog :: "Kernel \<Rightarrow> bool \<Rightarrow> Kernel" where
  "enableWatchdog k enable = k\<lparr> watchdogEnabled := enable \<rparr>"

definition feedWatchdog :: "Kernel \<Rightarrow> uint32 \<Rightarrow> Kernel" where
  "feedWatchdog k now =
     k\<lparr> tasks := (tasks k)[currentTaskId k := (getCurrentTask k)\<lparr> lastYield := now \<rparr>] \<rparr>"

text \<open>The body of the loop of \<^verbatim>\<open>Kernel::checkWatchdog\<close> for one slot.\<close>

definition watchdogTask :: "uint32 \<Rightarrow> Task \<Rightarrow> Task" where
  "watchdogTask now task =
     (if state task = TASK_EMPTY then task
      else if state task = TASK_SLEEPING then task
      else
        let timeSinceYield = now - lastYield task in
        if timeSinceYield > WATCHDOG_TIMEOUT_MS
        then (if state task = TASK_RUNNING then task\<lparr> state := TASK_READY \<rparr> else task)
               \<lparr> lastYield := now \<rparr>
        else task)"

text \<open>
  \<^verbatim>\<open>Kernel::checkWatchdog\<close>; \<open>now\<close> is its reading of \<^verbatim>\<open>millis()\<close>. The loop visits each of
  the \<open>MAX_TASKS\<close> slots once and changes only the slot it visits.
\<close>

definition checkWatchdog :: "Kernel \<Rightarrow> uint32 \<Rightarrow> Kernel" where
  "checkWatchdog k now =
     (if \<not> watchdogEnabled k then k
      else if now - watchdogLastCheck k < 1000 then k
      else k\<lparr> watchdogLastCheck := now, tasks := map (watchdogTask now) (tasks k) \<rparr>)"

text \<open>
  The selection loop of \<^verbatim>\<open>Kernel::schedule\<close> over the slots from index \<open>i\<close> on, with the
  loop variables \<open>bestTask\<close> and \<open>bestPriority\<close>: it returns the slots as the loop leaves
  them (sleepers whose deadline has passed are made ready) and the final loop variables.
\<close>

fun scheduleLoop :: "uint32 \<Rightarrow> Task list \<Rightarrow> nat \<Rightarrow> nat \<Rightarrow> int \<Rightarrow> Task list \<times> nat \<times> int" where
  "scheduleLoop now [] i bestTask bestPriority = ([], bestTask, bestPriority)"
| "scheduleLoop now (task # rest) i bestTask bestPriority =
     (if state task = TASK_EMPTY then
        (case scheduleLoop now rest (i + 1) bestTask bestPriority of
           (ts, b, p) \<Rightarrow> (task # ts, b, p))
      else if state task = TASK_SLEEPING \<and> \<not> (now \<ge> sleepUntil task) then
        (case scheduleLoop now rest (i + 1) bestTask bestPriority of
           (ts, b, p) \<Rightarrow> (task # ts, b, p))
      else
        let task' = (if state task = TASK_SLEEPING then task\<lparr> state := TASK_READY \<rparr> else task) in
        if state task' = TASK_READY \<and> priority task' > bestPriority then
          (case scheduleLoop now rest (i + 1) i (priority task') of
             (ts, b, p) \<Rightarrow> (task' # ts, b, p))
        else
          (case scheduleLoop now rest (i + 1) bestTask bestPriority of
             (ts, b, p) \<Rightarrow> (task' # ts, b, p)))"

text \<open>
  \<^verbatim>\<open>Kernel::schedule\<close>. \<open>nowW\<close> is the clock reading of the watchdog check, \<open>nowS\<close> that of
  the scheduler itself. The result is the state at the moment the entry point is called
  and the list of the entry points called: the selected task's, once, or none.
\<close>

definition schedule :: "Kernel \<Rightarrow> uint32 \<Rightarrow> uint32 \<Rightarrow> Kernel \<times> nat list" where
  "schedule k nowW nowS =
    (let k1 = checkWatchdog k nowW;
         (ts, bestTask, bestPriority) = scheduleLoop nowS (tasks k1) 0 0 (- 1);
         k2 = k1\<lparr> tasks := ts \<rparr>;
         k3 = (if bestTask \<noteq> currentTaskId k2 then
                 let cur = currentTaskId k2;
                     ts1 = (if state (ts ! cur) = TASK_RUNNING
                            then ts[cur := (ts ! cur)\<lparr> state := TASK_READY \<rparr>] else ts);
                     ts2 = ts1[bestTask := (ts1 ! bestTask)\<lparr> state := TASK_RUNNING, lastRun := nowS \<rparr>]
                 in k2\<lparr> currentTaskId := bestTask, tasks := ts2 \<rparr>
               else k2);
         current = getCurrentTask k3
     in (k3, if entryPoint current \<noteq> None \<and> state current = TASK_RUNNING
             then [the (entryPoint current)] else []))"

text \<open>\<^verbatim>\<open>Kernel::yield\<close> and \<^verbatim>\<open>Kernel::sleep\<close>, with their clock readings.\<close>

definition yield :: "Kernel \<Rightarrow> uint32 \<Rightarrow> Kernel" where
  "yield k now =
     k\<lparr> tasks := (tasks k)[currentTaskId k :=
           (getCurrentTask k)\<lparr> state := TASK_READY, lastYield := now \<rparr>] \<rparr>"

definition sleep :: "Kernel \<Rightarrow> uint32 \<Rightarrow> uint32 \<Rightarrow> uint32 \<Rightarrow> Kernel" where
  "sleep k ms now0 now1 =
     k\<lparr> tasks := (tasks k)[currentTaskId k :=
           (getCurrentTask k)\<lparr> state := TASK_SLEEPING, sleepUntil := now0 + ms, lastYield := now1 \<rparr>] \<rparr>"

section \<open>Mailboxes: \<^verbatim>\<open>ipcSend\<close>, \<^verbatim>\<open>ipcReceive\<close>, \<^verbatim>\<open>ipcPoll\<close>\<close>

text \<open>\<^verbatim>\<open>memcpy(dst, src, n)\<close> on byte arrays: the first \<open>n\<close> bytes of \<open>dst\<close> become those of \<open>src\<close>.\<close>

definition memcpy :: "byte list \<Rightarrow> byte list \<Rightarrow> nat \<Rightarrow> byte list" where
  "memcpy dst src n = take n src @ drop n dst"

text \<open>The conversion of a \<^verbatim>\<open>size_t\<close> to \<^verbatim>\<open>int\<close> (two's complement, 32 bits).\<close>

definition int_of_size :: "nat \<Rightarrow> int" where
  "int_of_size n = (if n mod 2 ^ 32 < 2 ^ 31 then int (n mod 2 ^ 32) else int (n mod 2 ^ 32) - 2 ^ 32)"

text \<open>
  \<^verbatim>\<open>Kernel::ipcSend(toTaskId, data, length)\<close>; \<open>data\<close> is the memory the pointer addresses,
  \<open>now\<close> the clock reading for the timestamp.
\<close>

definition ipcSend :: "Kernel \<Rightarrow> int \<Rightarrow> byte list option \<Rightarrow> nat \<Rightarrow> uint32 \<Rightarrow> int \<times> Kernel" where
  "ipcSend k toId data len now =
    (if toId < 0 \<or> toId \<ge> int MAX_TASKS then (SYS_ERR_INVALID_PARAM, k)
     else if state (tasks k ! nat toId) = TASK_EMPTY then (SYS_ERR_NOT_FOUND, k)
     else if len > MESSAGE_DATA_SIZE then (SYS_ERR_INVALID_PARAM, k)
     else if data = None \<and> len > 0 then (SYS_ERR_INVALID_PARAM, k)
     else
       let queue = messageQueues k ! nat toId in
       if count queue \<ge> int MAX_MESSAGE_QUEUE_SIZE then (SYS_ERR_NO_MEMORY, k)
       else
         let msg = messages queue ! tail queue;
             msg' = msg\<lparr> fromTaskId := int (currentTaskId k), toTaskId := toId,
                      msgLength := len,
                      msgData := (case data of
                                    Some src \<Rightarrow> if len > 0 then memcpy (msgData msg) src len
                                                else msgData msg
                                  | None \<Rightarrow> msgData msg),
                      timestamp := now, valid := True \<rparr>;
             queue' = queue\<lparr> messages := (messages queue)[tail queue := msg'],
                        tail := (tail queue + 1) mod MAX_MESSAGE_QUEUE_SIZE,
                        count := count queue + 1 \<rparr>
         in (SYS_OK, k\<lparr> messageQueues := (messageQueues k)[nat toId := queue'] \<rparr>))"

text \<open>
  \<^verbatim>\<open>Kernel::ipcReceive(buffer, maxLength, fromTaskId)\<close>. The result is the returned
  \<^verbatim>\<open>int\<close>, the new state, the receive buffer and the \<^verbatim>\<open>int\<close> behind \<^verbatim>\<open>fromTaskId\<close>
  after the call.
\<close>

definition ipcReceive ::
  "Kernel \<Rightarrow> byte list option \<Rightarrow> nat \<Rightarrow> int option \<Rightarrow> int \<times> Kernel \<times> byte list option \<times> int option" where
  "ipcReceive k buffer maxLength fromPtr =
    (let queue = messageQueues k ! currentTaskId k in
     if count queue = 0 then (SYS_ERR_WOULD_BLOCK, k, buffer, fromPtr)
     else
       let msg = messages queue ! head queue in
       if \<not> valid msg then (SYS_ERR_IO_ERROR, k, buffer, fromPtr)
       else if msgLength msg > maxLength then (SYS_ERR_INVALID_PARAM, k, buffer, fromPtr)
       else
         let buffer' = (case buffer of
                          Some b \<Rightarrow> if msgLength msg > 0
                                    then Some (memcpy b (msgData msg) (msgLength msg)) else Some b
                        | None \<Rightarrow> None);
             fromPtr' = (case fromPtr of Some _ \<Rightarrow> Some (fromTaskId msg) | None \<Rightarrow> None);
             len = int_of_size (msgLength msg);
             queue' = queue\<lparr> messages := (messages queue)[head queue := msg\<lparr> valid := False \<rparr>],
                        head := (head queue + 1) mod MAX_MESSAGE_QUEUE_SIZE,
                        count := count queue - 1 \<rparr>
         in (len, k\<lparr> messageQueues := (messageQueues k)[currentTaskId k := queue'] \<rparr>,
             buffer', fromPtr'))"

definition ipcPoll :: "Kernel \<Rightarrow> int" where
  "ipcPoll k = count (messageQueues k ! currentTaskId k)"

section \<open>Semaphores\<close>

text \<open>\<^verbatim>\<open>Kernel::allocateSemaphore\<close>: the first slot not in use, or \<open>-1\<close>.\<close>

definition allocateSemaphore :: "Kernel \<Rightarrow> int" where
  "allocateSemaphore k =
     (case List.find (\<lambda>i. \<not> semInUse (semaphores k ! i)) [0..<MAX_SEMAPHORES] of
        Some i \<Rightarrow> int i
      | None \<Rightarrow> - 1)"

definition semCreate :: "Kernel \<Rightarrow> int \<Rightarrow> int \<Rightarrow> string \<Rightarrow> int \<times> Kernel" where
  "semCreate k initialValue maxVal name =
     (if initialValue < 0 \<or> maxVal < 1 \<or> initialValue > maxVal then (SYS_ERR_INVALID_PARAM, k)
      else
        let semId = allocateSemaphore k in
        if semId < 0 then (SYS_ERR_NO_MEMORY, k)
        else (semId, k\<lparr> semaphores := (semaphores k)[nat semId :=
                \<lparr> semValue = initialValue, maxValue = maxVal, semInUse = True,
                  semOwnerTaskId = currentTaskId k, semName = name \<rparr>] \<rparr>))"

text \<open>
  The loop of \<^verbatim>\<open>Kernel::semWait\<close>. \<open>clock\<close> lists the readings \<^verbatim>\<open>millis()\<close> will give, in
  order: one for the timeout test of an iteration (made only when \<^verbatim>\<open>timeoutMs > 0\<close>) and
  one for the \<^verbatim>\<open>yield()\<close> that ends it. \<^verbatim>\<open>yield()\<close> only marks the caller ready and returns,
  so nothing else runs between two iterations. The result is \<open>None\<close> when the loop is
  still spinning after the last reading of \<open>clock\<close>.
\<close>

fun semWaitLoop :: "Kernel \<Rightarrow> nat \<Rightarrow> uint32 \<Rightarrow> uint32 \<Rightarrow> uint32 list \<Rightarrow> (int \<times> Kernel) option" where
  "semWaitLoop k semId timeoutMs startTime clock =
     (let sem = semaphores k ! semId in
      if semValue sem \<le> 0 then
        (if timeoutMs > 0 then
           (case clock of
              [] \<Rightarrow> None
            | now # rest \<Rightarrow>
                if now - startTime \<ge> timeoutMs then Some (SYS_ERR_TIMEOUT, k)
                else (case rest of
                        [] \<Rightarrow> None
                      | y # rest' \<Rightarrow> semWaitLoop (yield k y) semId timeoutMs startTime rest'))
         else
           (case clock of
              [] \<Rightarrow> None
            | y # rest \<Rightarrow> semWaitLoop (yield k y) semId timeoutMs startTime rest))
      else
        Some (SYS_OK, k\<lparr> semaphores := (semaphores k)[semId := sem\<lparr> semValue := semValue sem - 1 \<rparr>] \<rparr>))"

declare semWaitLoop.simps [simp del]

text \<open>\<^verbatim>\<open>Kernel::semWait(semId, timeoutMs)\<close>; the first reading of \<open>clock\<close> is \<^verbatim>\<open>startTime\<close>.\<close>

definition semWait :: "Kernel \<Rightarrow> int \<Rightarrow> uint32 \<Rightarrow> uint32 list \<Rightarrow> (int \<times> Kernel) option" where
  "semWait k semId timeoutMs clock =
     (if semId < 0 \<or> semId \<ge> int MAX_SEMAPHORES then Some (SYS_ERR_INVALID_PARAM, k)
      else if \<not> semInUse (semaphores k ! nat semId) then Some (SYS_ERR_NOT_FOUND, k)
      else (case clock of
              [] \<Rightarrow> None
            | startTime # rest \<Rightarrow> semWaitLoop k (nat semId) timeoutMs startTime rest))"

definition semPost :: "Kernel \<Rightarrow> int \<Rightarrow> int \<times> Kernel" where
  "semPost k semId =
     (if semId < 0 \<or> semId \<ge> int MAX_SEMAPHORES then (SYS_ERR_INVALID_PARAM, k)
      else if \<not> semInUse (semaphores k ! nat semId) then (SYS_ERR_NOT_FOUND, k)
      else
        let sem = semaphores k ! nat semId in
        if semValue sem \<ge> maxValue sem then (SYS_ERR_INVALID_PARAM, k)
        else (SYS_OK, k\<lparr> semaphores := (semaphores k)[nat semId :=
                sem\<lparr> semValue := semValue sem + 1 \<rparr>] \<rparr>))"

definition semDestroy :: "Kernel \<Rightarrow> int \<Rightarrow> int \<times> Kernel" where
  "semDestroy k semId =
     (if semId < 0 \<or> semId \<ge> int MAX_SEMAPHORES then (SYS_ERR_INVALID_PARAM, k)
      else if \<not> semInUse (semaphores k ! nat semId) then (SYS_ERR_NOT_FOUND, k)
      else if semOwnerTaskId (semaphores k ! nat semId) \<noteq> currentTaskId k \<and> currentTaskId k \<noteq> 0
        then (SYS_ERR_PERMISSION, k)
      else (SYS_OK, k\<lparr> semaphores := (semaphores k)[nat semId :=
              (semaphores k ! nat semId)\<lparr> semInUse := False \<rparr>] \<rparr>))"

text \<open>The bounds of the data model, for every slot in use.\<close>

definition sem_bounds :: "Kernel \<Rightarrow> bool" where
  "sem_bounds k \<longleftrightarrow>
     (\<forall>s \<in> set (semaphores k). semInUse s \<longrightarrow> 0 \<le> semValue s \<and> semValue s \<le> maxValue s)"

section \<open>The hardware\<close>

text \<open>
  The peripherals and the storage driver are outside the kernel. \<open>Hardware\<close> gives what
  their calls return; a kernel operation that uses them takes it as an argument. The
  GPIO, I2C and SPI operations also return the list of the commands they issue
  (\<open>HwCall\<close>), so that an operation refused by a capability check is seen to leave the
  hardware alone. Calls of the storage driver are not listed: the model only takes their
  results.
\<close>

datatype HwCall =
    HwPinMode int int
  | HwDigitalWrite int int
  | HwDigitalRead int
  | HwAnalogRead int
  | HwAnalogWrite int int
  | HwWireBegin
  | HwWireBeginAddress byte
  | HwWireBeginTransmission byte
  | HwWireWrite "byte list"
  | HwWireEndTransmission
  | HwWireRequestFrom byte byte
  | HwSpiBegin
  | HwSpiTransfer byte
  | HwSpiEnd

record Hardware =
  hwDigitalRead :: "int \<Rightarrow> int"
  hwAnalogRead :: "int \<Rightarrow> int"
  hwWireWrite :: nat
  hwWireEndTransmission :: byte
  hwWireRequestFrom :: byte
  hwWireAvailable :: "byte list"
  hwSpiTransfer :: "byte \<Rightarrow> byte"
  hwSdOpen :: "string \<Rightarrow> bool \<Rightarrow> bool"
  hwSdIsDirectory :: "string \<Rightarrow> bool"
  hwSdRemove :: "string \<Rightarrow> bool"
  hwSdExists :: "string \<Rightarrow> bool"
  hwSdMkdir :: "string \<Rightarrow> bool"
  hwSdRmdir :: "string \<Rightarrow> bool"
  hwFileRead :: "File \<Rightarrow> nat \<Rightarrow> int"
  hwFileWrite :: "File \<Rightarrow> nat \<Rightarrow> nat"
  hwFileSize :: "File \<Rightarrow> nat"
  hwDirNext :: "File \<Rightarrow> DirEntry option"
  hwHeapBase :: uint32

section \<open>Device driver interface: GPIO, I2C, SPI\<close>

definition gpioSetMode :: "Kernel \<Rightarrow> int \<Rightarrow> int \<Rightarrow> int \<times> HwCall list" where
  "gpioSetMode k pin mode =
     (if \<not> canAccessGPIO (getCurrentTask k) then (SYS_ERR_PERMISSION, [])
      else (SYS_OK, [HwPinMode pin mode]))"

definition gpioWrite :: "Kernel \<Rightarrow> int \<Rightarrow> int \<Rightarrow> int \<times> HwCall list" where
  "gpioWrite k pin val =
     (if \<not> canAccessGPIO (getCurrentTask k) then (SYS_ERR_PERMISSION, [])
      else (SYS_OK, [HwDigitalWrite pin val]))"

definition gpioRead :: "Hardware \<Rightarrow> Kernel \<Rightarrow> int \<Rightarrow> int \<times> HwCall list" where
  "gpioRead hw k pin =
     (if \<not> canAccessGPIO (getCurrentTask k) then (SYS_ERR_PERMISSION, [])
      else (hwDigitalRead hw pin, [HwDigitalRead pin]))"

definition gpioAnalogRead :: "Hardware \<Rightarrow> Kernel \<Rightarrow> int \<Rightarrow> int \<times> HwCall list" where
  "gpioAnalogRead hw k pin =
     (if \<not> canAccessGPIO (getCurrentTask k) then (SYS_ERR_PERMISSION, [])
      else (hwAnalogRead hw pin, [HwAnalogRead pin]))"

definition gpioAnalogWrite :: "Kernel \<Rightarrow> int \<Rightarrow> int \<Rightarrow> int \<times> HwCall list" where
  "gpioAnalogWrite k pin val =
     (if \<not> canAccessGPIO (getCurrentTask k) then (SYS_ERR_PERMISSION, [])
      else (SYS_OK, [HwAnalogWrite pin val]))"

definition i2cBegin :: "Kernel \<Rightarrow> byte \<Rightarrow> int \<times> HwCall list" where
  "i2cBegin k address =
     (if \<not> canAccessI2C (getCurrentTask k) then (SYS_ERR_PERMISSION, [])
      else if address = 0 then (SYS_OK, [HwWireBegin])
      else (SYS_OK, [HwWireBeginAddress address]))"

text \<open>
  \<^verbatim>\<open>Kernel::i2cWrite(address, data, length)\<close>: \<open>data\<close> is the memory behind the pointer.
\<close>

definition i2cWrite :: "Hardware \<Rightarrow> Kernel \<Rightarrow> byte \<Rightarrow> byte list option \<Rightarrow> nat \<Rightarrow> int \<times> HwCall list" where
  "i2cWrite hw k address data len =
     (if \<not> canAccessI2C (getCurrentTask k) then (SYS_ERR_PERMISSION, [])
      else case data of
        None \<Rightarrow> (SYS_ERR_INVALID_PARAM, [])
      | Some bytes \<Rightarrow>
          if len = 0 then (SYS_ERR_INVALID_PARAM, [])
          else
            let calls = [HwWireBeginTransmission address, HwWireWrite (take len bytes),
                         HwWireEndTransmission] in
            if hwWireEndTransmission hw \<noteq> 0 then (SYS_ERR_IO_ERROR, calls)
            else (int_of_size (hwWireWrite hw), calls))"

text \<open>
  \<^verbatim>\<open>Kernel::i2cRead(address, buffer, length)\<close>. The loop stores the bytes the bus has
  available, at most \<^verbatim>\<open>(int)length\<close> of them, at the start of the buffer; the third
  component is the buffer after the call.
\<close>

definition i2cRead ::
  "Hardware \<Rightarrow> Kernel \<Rightarrow> byte \<Rightarrow> byte list option \<Rightarrow> nat \<Rightarrow> int \<times> HwCall list \<times> byte list option" where
  "i2cRead hw k address buffer len =
     (if \<not> canAccessI2C (getCurrentTask k) then (SYS_ERR_PERMISSION, [], buffer)
      else case buffer of
        None \<Rightarrow> (SYS_ERR_INVALID_PARAM, [], buffer)
      | Some buf \<Rightarrow>
          if len = 0 then (SYS_ERR_INVALID_PARAM, [], buffer)
          else if hwWireEndTransmission hw \<noteq> 0
            then (SYS_ERR_IO_ERROR, [HwWireBeginTransmission address, HwWireEndTransmission], buffer)
          else
            let calls = [HwWireBeginTransmission address, HwWireEndTransmission,
                         HwWireRequestFrom address (of_nat len)];
                bytesRead = take (nat (int_of_size len)) (hwWireAvailable hw)
            in (int (length bytesRead), calls, Some (bytesRead @ drop (length bytesRead) buf)))"

definition i2cRequest :: "Hardware \<Rightarrow> Kernel \<Rightarrow> byte \<Rightarrow> nat \<Rightarrow> int \<times> HwCall list" where
  "i2cRequest hw k address quantity =
     (if \<not> canAccessI2C (getCurrentTask k) then (SYS_ERR_PERMISSION, [])
      else (uint (hwWireRequestFrom hw), [HwWireRequestFrom address (of_nat quantity)]))"

definition spiBegin :: "Kernel \<Rightarrow> int \<times> HwCall list" where
  "spiBegin k =
     (if \<not> canAccessSPI (getCurrentTask k) then (SYS_ERR_PERMISSION, [])
      else (SYS_OK, [HwSpiBegin]))"

text \<open>
  \<^verbatim>\<open>Kernel::spiTransfer(txData, rxData, length)\<close>: one bus transfer per byte; the third
  component is the receive buffer after the call.
\<close>

definition spiTransfer ::
  "Hardware \<Rightarrow> Kernel \<Rightarrow> byte list option \<Rightarrow> byte list option \<Rightarrow> nat \<Rightarrow> int \<times> HwCall list \<times> byte list option" where
  "spiTransfer hw k txData rxData len =
     (if \<not> canAccessSPI (getCurrentTask k) then (SYS_ERR_PERMISSION, [], rxData)
      else if len = 0 then (SYS_ERR_INVALID_PARAM, [], rxData)
      else case (txData, rxData) of
        (Some tx, Some rx) \<Rightarrow>
          (int_of_size len, map HwSpiTransfer (take len tx),
           Some (map (hwSpiTransfer hw) (take len tx) @ drop len rx))
      | (Some tx, None) \<Rightarrow> (int_of_size len, map HwSpiTransfer (take len tx), None)
      | (None, Some rx) \<Rightarrow>
          (int_of_size len, replicate len (HwSpiTransfer 0),
           Some (replicate len (hwSpiTransfer hw 0) @ drop len rx))
      | (None, None) \<Rightarrow> (int_of_size len, [], None))"

definition spiEnd :: "Kernel \<Rightarrow> int \<times> HwCall list" where
  "spiEnd k =
     (if \<not> canAccessSPI (getCurrentTask k) then (SYS_ERR_PERMISSION, [])
      else (SYS_OK, [HwSpiEnd]))"

section \<open>Files and directories\<close>

definition allocateFileHandle :: "Kernel \<Rightarrow> int" where
  "allocateFileHandle k =
     (case List.find (\<lambda>i. \<not> fhInUse (fileHandles k ! i)) [0..<MAX_FILE_HANDLES] of
        Some i \<Rightarrow> int i
      | None \<Rightarrow> - 1)"

definition allocateDirHandle :: "Kernel \<Rightarrow> int" where
  "allocateDirHandle k =
     (case List.find (\<lambda>i. \<not> dhInUse (dirHandles k ! i)) [0..<MAX_DIR_HANDLES] of
        Some i \<Rightarrow> int i
      | None \<Rightarrow> - 1)"

text \<open>
  \<^verbatim>\<open>Kernel::fileOpen(path, write)\<close>. The \<^verbatim>\<open>File\<close> returned by \<^verbatim>\<open>SD.open\<close> is stored in the
  free entry before it is tested, so a failed open leaves its (false) \<^verbatim>\<open>File\<close> there.
\<close>

definition fileOpen :: "Hardware \<Rightarrow> Kernel \<Rightarrow> string \<Rightarrow> bool \<Rightarrow> int \<times> Kernel" where
  "fileOpen hw k path wr =
     (if \<not> sdInitialized k then (SYS_ERR_IO_ERROR, k)
      else if \<not> canAccessSD (getCurrentTask k) then (SYS_ERR_PERMISSION, k)
      else
        let handle = allocateFileHandle k in
        if handle < 0 then (SYS_ERR_NO_MEMORY, k)
        else
          let h = nat handle;
              f = (if hwSdOpen hw path wr then Some path else None);
              fh = (fileHandles k ! h)\<lparr> fhFile := f \<rparr>
          in if f = None then (SYS_ERR_NOT_FOUND, k\<lparr> fileHandles := (fileHandles k)[h := fh] \<rparr>)
             else
               let cur = getCurrentTask k in
               (handle, k\<lparr> fileHandles := (fileHandles k)[h :=
                              fh\<lparr> fhInUse := True, fhOwnerTaskId := currentTaskId k, canWrite := wr \<rparr>],
                           tasks := (tasks k)[currentTaskId k :=
                              cur\<lparr> taskFileHandles := (taskFileHandles cur)[h := True] \<rparr>] \<rparr>))"

definition fileClose :: "Kernel \<Rightarrow> int \<Rightarrow> int \<times> Kernel" where
  "fileClose k handle =
     (if handle < 0 \<or> handle \<ge> int MAX_FILE_HANDLES then (SYS_ERR_INVALID_PARAM, k)
      else if \<not> fhInUse (fileHandles k ! nat handle) then (SYS_ERR_INVALID_PARAM, k)
      else if fhOwnerTaskId (fileHandles k ! nat handle) \<noteq> currentTaskId k
        then (SYS_ERR_PERMISSION, k)
      else
        let k1 = freeFileHandle k handle;
            cur = getCurrentTask k1
        in (SYS_OK, k1\<lparr> tasks := (tasks k1)[currentTaskId k1 :=
              cur\<lparr> taskFileHandles := (taskFileHandles cur)[nat handle := False] \<rparr>] \<rparr>))"

definition fileRead :: "Hardware \<Rightarrow> Kernel \<Rightarrow> int \<Rightarrow> nat \<Rightarrow> int" where
  "fileRead hw k handle sz =
     (if handle < 0 \<or> handle \<ge> int MAX_FILE_HANDLES then SYS_ERR_INVALID_PARAM
      else if \<not> fhInUse (fileHandles k ! nat handle) then SYS_ERR_INVALID_PARAM
      else if fhOwnerTaskId (fileHandles k ! nat handle) \<noteq> currentTaskId k then SYS_ERR_PERMISSION
      else hwFileRead hw (fhFile (fileHandles k ! nat handle)) sz)"

definition fileWrite :: "Hardware \<Rightarrow> Kernel \<Rightarrow> int \<Rightarrow> nat \<Rightarrow> int" where
  "fileWrite hw k handle sz =
     (if handle < 0 \<or> handle \<ge> int MAX_FILE_HANDLES then SYS_ERR_INVALID_PARAM
      else if \<not> fhInUse (fileHandles k ! nat handle) then SYS_ERR_INVALID_PARAM
      else if fhOwnerTaskId (fileHandles k ! nat handle) \<noteq> currentTaskId k then SYS_ERR_PERMISSION
      else if \<not> canWrite (fileHandles k ! nat handle) then SYS_ERR_PERMISSION
      else int_of_size (hwFileWrite hw (fhFile (fileHandles k ! nat handle)) sz))"

definition fileDelete :: "Hardware \<Rightarrow> Kernel \<Rightarrow> string \<Rightarrow> bool" where
  "fileDelete hw k path =
     (if \<not> sdInitialized k then False
      else if \<not> canAccessSD (getCurrentTask k) then False
      else hwSdRemove hw path)"

definition fileExists :: "Hardware \<Rightarrow> Kernel \<Rightarrow> string \<Rightarrow> bool" where
  "fileExists hw k path =
     (if \<not> sdInitialized k then False
      else if \<not> canAccessSD (getCurrentTask k) then False
      else hwSdExists hw path)"

definition fileSize :: "Hardware \<Rightarrow> Kernel \<Rightarrow> int \<Rightarrow> nat" where
  "fileSize hw k handle =
     (if handle < 0 \<or> handle \<ge> int MAX_FILE_HANDLES then 0
      else if \<not> fhInUse (fileHandles k ! nat handle) then 0
      else if fhOwnerTaskId (fileHandles k ! nat handle) \<noteq> currentTaskId k then 0
      else hwFileSize hw (fhFile (fileHandles k ! nat handle)))"

definition dirOpen :: "Hardware \<Rightarrow> Kernel \<Rightarrow> string \<Rightarrow> int \<times> Kernel" where
  "dirOpen hw k path =
     (if \<not> sdInitialized k then (SYS_ERR_IO_ERROR, k)
      else if \<not> canAccessSD (getCurrentTask k) then (SYS_ERR_PERMISSION, k)
      else
        let handle = allocateDirHandle k in
        if handle < 0 then (SYS_ERR_NO_MEMORY, k)
        else
          let h = nat handle;
              d = (if hwSdOpen hw path False then Some path else None);
              dh = (dirHandles k ! h)\<lparr> dhDir := d \<rparr>
          in if d = None then (SYS_ERR_NOT_FOUND, k\<lparr> dirHandles := (dirHandles k)[h := dh] \<rparr>)
             else if \<not> hwSdIsDirectory hw path
               then (SYS_ERR_INVALID_PARAM,
                     k\<lparr> dirHandles := (dirHandles k)[h := dh\<lparr> dhDir := None \<rparr>] \<rparr>)
             else
               let cur = getCurrentTask k in
               (handle, k\<lparr> dirHandles := (dirHandles k)[h :=
                              dh\<lparr> dhInUse := True, dhOwnerTaskId := currentTaskId k \<rparr>],
                           tasks := (tasks k)[currentTaskId k :=
                              cur\<lparr> taskDirHandles := (taskDirHandles cur)[h := True] \<rparr>] \<rparr>))"

definition dirClose :: "Kernel \<Rightarrow> int \<Rightarrow> int \<times> Kernel" where
  "dirClose k handle =
     (if handle < 0 \<or> handle \<ge> int MAX_DIR_HANDLES then (SYS_ERR_INVALID_PARAM, k)
      else if \<not> dhInUse (dirHandles k ! nat handle) then (SYS_ERR_INVALID_PARAM, k)
      else if dhOwnerTaskId (dirHandles k ! nat handle) \<noteq> currentTaskId k
        then (SYS_ERR_PERMISSION, k)
      else
        let k1 = freeDirHandle k handle;
            cur = getCurrentTask k1
        in (SYS_OK, k1\<lparr> tasks := (tasks k1)[currentTaskId k1 :=
              cur\<lparr> taskDirHandles := (taskDirHandles cur)[nat handle := False] \<rparr>] \<rparr>))"

text \<open>
  \<^verbatim>\<open>Kernel::dirRead(handle, entry)\<close>: \<open>entry\<close> is the \<^verbatim>\<open>DirEntry\<close> behind the pointer; the
  second component is that entry after the call. The name is cut to 63 characters.
\<close>

definition dirRead :: "Hardware \<Rightarrow> Kernel \<Rightarrow> int \<Rightarrow> DirEntry option \<Rightarrow> bool \<times> DirEntry option" where
  "dirRead hw k handle entry =
     (if handle < 0 \<or> handle \<ge> int MAX_DIR_HANDLES then (False, entry)
      else if \<not> dhInUse (dirHandles k ! nat handle) then (False, entry)
      else if dhOwnerTaskId (dirHandles k ! nat handle) \<noteq> currentTaskId k then (False, entry)
      else if entry = None then (False, entry)
      else case hwDirNext hw (dhDir (dirHandles k ! nat handle)) of
        None \<Rightarrow> (False, entry)
      | Some e \<Rightarrow> (True, Some (e\<lparr> entryName := take 63 (entryName e) \<rparr>)))"

definition dirCreate :: "Hardware \<Rightarrow> Kernel \<Rightarrow> string \<Rightarrow> bool" where
  "dirCreate hw k path =
     (if \<not> sdInitialized k then False
      else if \<not> canAccessSD (getCurrentTask k) then False
      else hwSdMkdir hw path)"

definition dirRemove :: "Hardware \<Rightarrow> Kernel \<Rightarrow> string \<Rightarrow> bool" where
  "dirRemove hw k path =
     (if \<not> sdInitialized k then False
      else if \<not> canAccessSD (getCurrentTask k) then False
      else hwSdRmdir hw path)"

text \<open>
  \<^verbatim>\<open>Kernel::dirRewind\<close> only restarts the iteration of the storage driver; the kernel
  state is unchanged.
\<close>

definition dirRewind :: "Kernel \<Rightarrow> int \<Rightarrow> Kernel" where
  "dirRewind k handle = k"

section \<open>Heap\<close>

text \<open>
  \<^verbatim>\<open>sizeof(MemoryBlock)\<close> on the 32-bit target: \<^verbatim>\<open>size_t\<close>, \<^verbatim>\<open>int\<close>, \<^verbatim>\<open>bool\<close> (padded) and
  \<^verbatim>\<open>int\<close>, four bytes each.
\<close>

abbreviation (input) HEADER_SIZE :: nat where "HEADER_SIZE \<equiv> 16"

text \<open>Addition and subtraction of \<^verbatim>\<open>size_t\<close> values wrap at \<open>2 ^ 32\<close>.\<close>

definition sz_add :: "nat \<Rightarrow> nat \<Rightarrow> nat" where
  "sz_add a b = (a + b) mod 2 ^ 32"

definition sz_sub :: "nat \<Rightarrow> nat \<Rightarrow> nat" where
  "sz_sub a b = (a mod 2 ^ 32 + 2 ^ 32 - b mod 2 ^ 32) mod 2 ^ 32"

text \<open>
  How a call ends. \<open>Panics\<close>: \<^verbatim>\<open>Kernel::panic\<close> was called, which prints the system state
  and halts in an endless loop. \<open>Unknown\<close>: the code read a block header from bytes of
  which the model does not know the content (see \<open>heap\<close>), so the model does not say
  what it does. A call that loops forever has no outcome: the functions with a loop
  that can do so return an \<open>option\<close>, and \<open>None\<close> is the call that never returns.
\<close>

datatype 'a outcome = Returns 'a | Panics | Unknown

text \<open>
  A write to the bytes \<open>[a, b)\<close> destroys every header whose 16 bytes overlap them: the
  model forgets the headers at the offsets \<open>o\<close> with \<open>a < o + 16\<close> and \<open>o < b\<close>.
\<close>

definition clobber :: "heap \<Rightarrow> nat \<Rightarrow> nat \<Rightarrow> heap" where
  "clobber h a b = (\<lambda>off. if a < off + HEADER_SIZE \<and> off < b then None else h off)"

text \<open>
  \<^verbatim>\<open>memmove(&kernelHeap[dst], &kernelHeap[src], n)\<close> of a block whose header is \<open>block\<close>:
  the \<open>n\<close> bytes from \<open>dst\<close> on are overwritten, and the header arrives at \<open>dst\<close> when the
  move covers it. The bytes of the source are left as they are, where the move does not
  overwrite them.
\<close>

definition memmoveBlock :: "heap \<Rightarrow> nat \<Rightarrow> nat \<Rightarrow> MemoryBlock \<Rightarrow> heap" where
  "memmoveBlock h dst n block =
     (clobber h dst (dst + n))(dst := (if HEADER_SIZE \<le> n then Some block else None))"

text \<open>
  The loop of \<^verbatim>\<open>Kernel::compactMemory\<close> with its variables \<open>readPos\<close> and \<open>writePos\<close>
  (the counter \<^verbatim>\<open>movedBlocks\<close> only feeds the log and is left out). The sums are
  \<^verbatim>\<open>size_t\<close> sums and wrap, so a header with a huge size can send \<open>readPos\<close> backwards
  or leave it in place, and the loop need not end.
\<close>

partial_function (option) compactLoop :: "heap \<Rightarrow> nat \<Rightarrow> nat \<Rightarrow> nat \<Rightarrow> (heap \<times> nat) outcome option" where
  "compactLoop h used readPos writePos =
     (if readPos < used then
        (case h readPos of
           None \<Rightarrow> Some Unknown
         | Some block \<Rightarrow>
             let blockTotalSize = sz_add HEADER_SIZE (blockSize block);
                 h' = (if inUse block \<and> writePos \<noteq> readPos
                       then memmoveBlock h writePos blockTotalSize block else h);
                 writePos' = (if inUse block then sz_add writePos blockTotalSize else writePos);
                 readPos' = sz_add readPos blockTotalSize
             in if readPos' > KERNEL_HEAP_SIZE \<or> writePos' > KERNEL_HEAP_SIZE then Some Panics
                else compactLoop h' used readPos' writePos')
      else Some (Returns (h, writePos)))"

definition compactMemory :: "Kernel \<Rightarrow> Kernel outcome option" where
  "compactMemory k =
     map_option (map_outcome (\<lambda>(h, writePos). k\<lparr> kernelHeap := h, heapUsed := writePos \<rparr>))
       (compactLoop (kernelHeap k) (heapUsed k) 0 0)"

text \<open>
  The second half of \<^verbatim>\<open>Kernel::allocateMemoryInternal\<close>: the header is written at offset
  \<open>heapUsed\<close>, the watermark advances, the owner is charged. The result is the payload
  address, as an offset into the heap, and the new state. The payload is the caller's
  from now on, so the model forgets what it knew of the bytes of the whole block.
\<close>

definition placeBlock :: "Kernel \<Rightarrow> nat \<Rightarrow> nat \<Rightarrow> int \<Rightarrow> nat option \<times> Kernel" where
  "placeBlock k sz totalNeeded tid =
     (let block = \<lparr> blockSize = sz, ownerTaskId = tid, inUse = True, handleId = - 1 \<rparr>;
          h = (clobber (kernelHeap k) (heapUsed k) (heapUsed k + HEADER_SIZE + sz))
                (heapUsed k := Some block);
          ts = (if 0 \<le> tid \<and> tid < int MAX_TASKS
                then (tasks k)[nat tid := (tasks k ! nat tid)
                        \<lparr> memoryUsed := sz_add (memoryUsed (tasks k ! nat tid)) sz \<rparr>]
                else tasks k)
      in (Some (heapUsed k + HEADER_SIZE),
          k\<lparr> kernelHeap := h, heapUsed := sz_add (heapUsed k) totalNeeded, tasks := ts \<rparr>))"

text \<open>
  \<^verbatim>\<open>Kernel::allocateMemoryInternal(size, taskId)\<close>. \<^verbatim>\<open>(size + 3) & ~3\<close> clears the two low
  bits of the wrapped sum, which is \<open>((size + 3) mod 2 ^ 32) div 4 * 4\<close>. A null pointer is
  \<open>None\<close>.
\<close>

definition allocateMemoryInternal :: "Kernel \<Rightarrow> nat \<Rightarrow> int \<Rightarrow> (nat option \<times> Kernel) outcome option" where
  "allocateMemoryInternal k size0 tid =
     (if size0 = 0 then Some (Returns (None, k))
      else
        let sz = sz_add size0 3 div 4 * 4;
            totalNeeded = sz_add HEADER_SIZE sz
        in if sz_add (heapUsed k) totalNeeded > KERNEL_HEAP_SIZE then
             (case compactMemory k of
                None \<Rightarrow> None
              | Some Panics \<Rightarrow> Some Panics
              | Some Unknown \<Rightarrow> Some Unknown
              | Some (Returns k1) \<Rightarrow>
                  if sz_add (heapUsed k1) totalNeeded > KERNEL_HEAP_SIZE
                  then Some (Returns (None, k1))
                  else Some (Returns (placeBlock k1 sz totalNeeded tid)))
           else Some (Returns (placeBlock k sz totalNeeded tid)))"

text \<open>
  \<^verbatim>\<open>Kernel::freeMemoryInternal(ptr)\<close>; \<open>ptr\<close> is a payload address as an offset into the
  heap. The header is read from the 16 bytes before it.
\<close>

definition freeMemoryInternal :: "Kernel \<Rightarrow> nat option \<Rightarrow> Kernel outcome" where
  "freeMemoryInternal k ptr =
     (case ptr of
        None \<Rightarrow> Returns k
      | Some p \<Rightarrow>
          if p < HEADER_SIZE then Unknown
          else
            (case kernelHeap k (p - HEADER_SIZE) of
               None \<Rightarrow> Unknown
             | Some block \<Rightarrow>
                 if \<not> inUse block then Returns k
                 else
                   let owner = ownerTaskId block;
                       ts = (if 0 \<le> owner \<and> owner < int MAX_TASKS
                             then (tasks k)[nat owner := (tasks k ! nat owner)
                                     \<lparr> memoryUsed := sz_sub (memoryUsed (tasks k ! nat owner))
                                                             (blockSize block) \<rparr>]
                             else tasks k)
                   in Returns (k\<lparr> tasks := ts,
                                  kernelHeap := (kernelHeap k)
                                     (p - HEADER_SIZE := Some (block\<lparr> inUse := False \<rparr>)) \<rparr>)))"

definition memAlloc :: "Kernel \<Rightarrow> nat \<Rightarrow> (nat option \<times> Kernel) outcome option" where
  "memAlloc k size0 = allocateMemoryInternal k size0 (int (currentTaskId k))"

definition memFree :: "Kernel \<Rightarrow> nat option \<Rightarrow> Kernel outcome" where
  "memFree k ptr = freeMemoryInternal k ptr"

definition memAvailable :: "Kernel \<Rightarrow> nat" where
  "memAvailable k = sz_sub KERNEL_HEAP_SIZE (heapUsed k)"

definition memCompact :: "Kernel \<Rightarrow> Kernel outcome option" where
  "memCompact k = compactMemory k"

subsection \<open>The blocks of the heap\<close>

text \<open>
  The headers met when walking the heap from offset \<open>off\<close> to the watermark, each block
  beginning where the one before ends (heap linearity); \<open>None\<close> when the walk meets bytes
  that are no header or overruns the watermark.
\<close>

function heapWalk :: "heap \<Rightarrow> nat \<Rightarrow> nat \<Rightarrow> MemoryBlock list option" where
  "heapWalk h off used =
     (if used \<le> off then (if off = used then Some [] else None)
      else case h off of
        None \<Rightarrow> None
      | Some block \<Rightarrow>
          (case heapWalk h (off + HEADER_SIZE + blockSize block) used of
             None \<Rightarrow> None
           | Some bs \<Rightarrow> Some (block # bs)))"
  by pat_completeness auto
termination
  by (relation "measure (\<lambda>(h, off, used). used - off)") auto

declare heapWalk.simps [simp del]

definition heapBlocks :: "Kernel \<Rightarrow> MemoryBlock list option" where
  "heapBlocks k = heapWalk (kernelHeap k) 0 (heapUsed k)"

text \<open>The bytes of the blocks in use, in all and per owner, and the free bytes with their headers.\<close>

definition liveBytes :: "MemoryBlock list \<Rightarrow> nat" where
  "liveBytes bs = sum_list (map blockSize (filter inUse bs))"

definition ownedBytes :: "MemoryBlock list \<Rightarrow> nat \<Rightarrow> nat" where
  "ownedBytes bs i = sum_list (map blockSize (filter (\<lambda>b. inUse b \<and> ownerTaskId b = int i) bs))"

definition freeSpace :: "MemoryBlock list \<Rightarrow> nat" where
  "freeSpace bs = sum_list (map (\<lambda>b. HEADER_SIZE + blockSize b) (filter (\<lambda>b. \<not> inUse b) bs))"

section \<open>System calls\<close>

text \<open>The enumeration \<^verbatim>\<open>SyscallType\<close> of \<^verbatim>\<open>kernel.h\<close>, in its order.\<close>

datatype SyscallType =
    SYS_FILE_OPEN | SYS_FILE_CLOSE | SYS_FILE_READ | SYS_FILE_WRITE | SYS_FILE_DELETE
  | SYS_FILE_EXISTS | SYS_FILE_SIZE
  | SYS_DIR_OPEN | SYS_DIR_READ | SYS_DIR_CLOSE | SYS_DIR_CREATE | SYS_DIR_REMOVE | SYS_DIR_REWIND
  | SYS_MEM_ALLOC | SYS_MEM_FREE | SYS_MEM_INFO | SYS_MEM_COMPACT
  | SYS_DISPLAY_CLEAR | SYS_DISPLAY_PIXEL | SYS_DISPLAY_TEXT | SYS_DISPLAY_RECT | SYS_DISPLAY_UPDATE
  | SYS_TASK_CREATE | SYS_TASK_KILL | SYS_TASK_YIELD | SYS_TASK_SLEEP | SYS_TASK_LIST
  | SYS_IPC_SEND | SYS_IPC_RECEIVE | SYS_IPC_POLL
  | SYS_SEM_CREATE | SYS_SEM_WAIT | SYS_SEM_POST | SYS_SEM_DESTROY
  | SYS_GPIO_PINMODE | SYS_GPIO_WRITE | SYS_GPIO_READ | SYS_GPIO_ANALOG_READ | SYS_GPIO_ANALOG_WRITE
  | SYS_I2C_BEGIN | SYS_I2C_WRITE | SYS_I2C_READ | SYS_I2C_REQUEST
  | SYS_SPI_BEGIN | SYS_SPI_TRANSFER | SYS_SPI_END
  | SYS_GET_TIME | SYS_PRINT | SYS_DBG_PRINT

text \<open>
  An argument of \<^verbatim>\<open>Kernel::syscall\<close> is a \<^verbatim>\<open>void*\<close>. \<open>argValue\<close> is the pointer itself, which
  the casts through \<^verbatim>\<open>intptr_t\<close> read as a number; the other fields are what the callee
  finds behind the pointer when it casts it to a pointer of that type, \<open>None\<close> standing for
  a null pointer.
\<close>

record Arg =
  argValue :: uint32
  argString :: string
  argBuffer :: "byte list option"
  argEntry :: "DirEntry option"
  argInt :: "int option"

text \<open>What a call leaves behind the pointers it writes through.\<close>

datatype SysOut =
    NoOut
  | OutBuffer "byte list option"
  | OutReceive "byte list option" "int option"
  | OutEntry "DirEntry option"

text \<open>The casts of the arguments.\<close>

definition asInt :: "Arg \<Rightarrow> int" where
  "asInt a = sint (argValue a)"

definition asSize :: "Arg \<Rightarrow> nat" where
  "asSize a = unat (argValue a)"

definition asByte :: "Arg \<Rightarrow> byte" where
  "asByte a = ucast (argValue a)"

definition asBool :: "Arg \<Rightarrow> bool" where
  "asBool a = (argValue a \<noteq> 0)"

text \<open>
  A payload pointer as an offset into \<^verbatim>\<open>kernelHeap\<close> and back; the array begins at address
  \<open>hwHeapBase\<close>.
\<close>

definition heapOffset :: "Hardware \<Rightarrow> Arg \<Rightarrow> nat option" where
  "heapOffset hw a = (if argValue a = 0 then None else Some (unat (argValue a - hwHeapBase hw)))"

definition heapAddress :: "Hardware \<Rightarrow> nat option \<Rightarrow> uint32" where
  "heapAddress hw p = (case p of None \<Rightarrow> 0 | Some off \<Rightarrow> hwHeapBase hw + of_nat off)"

type_synonym sysresult = "(int \<times> Kernel \<times> HwCall list \<times> SysOut) outcome option"

definition returnsInt :: "int \<Rightarrow> Kernel \<Rightarrow> sysresult" where
  "returnsInt r k = Some (Returns (r, k, [], NoOut))"

definition returnsState :: "int \<times> Kernel \<Rightarrow> sysresult" where
  "returnsState rk = Some (Returns (fst rk, snd rk, [], NoOut))"

definition returnsCalls :: "Kernel \<Rightarrow> int \<times> HwCall list \<Rightarrow> sysresult" where
  "returnsCalls k rc = Some (Returns (fst rc, k, snd rc, NoOut))"

definition returnsBuffer :: "Kernel \<Rightarrow> int \<times> HwCall list \<times> byte list option \<Rightarrow> sysresult" where
  "returnsBuffer k rcb = Some (Returns (fst rcb, k, fst (snd rcb), OutBuffer (snd (snd rcb))))"

text \<open>
  \<^verbatim>\<open>Kernel::syscall(type, arg1, arg2, arg3, arg4)\<close>. \<open>clock\<close> holds the readings of
  \<^verbatim>\<open>millis()\<close> the call makes, in order; the result is \<open>None\<close> when they run out, as in
  \<open>semWait\<close>, or when the heap compaction does not return. The result is the returned
  \<^verbatim>\<open>int\<close>, the new state, the commands sent to the peripherals and what was written
  through the pointers. The kinds with no \<^verbatim>\<open>case\<close> in the \<^verbatim>\<open>switch\<close> take its \<^verbatim>\<open>default\<close>.
\<close>

definition syscall ::
  "Hardware \<Rightarrow> uint32 list \<Rightarrow> Kernel \<Rightarrow> SyscallType \<Rightarrow> Arg \<Rightarrow> Arg \<Rightarrow> Arg \<Rightarrow> Arg \<Rightarrow> sysresult" where
  "syscall hw clock k type arg1 arg2 arg3 arg4 =
     (case type of
        SYS_FILE_OPEN \<Rightarrow> returnsState (fileOpen hw k (argString arg1) (asBool arg2))
      | SYS_FILE_CLOSE \<Rightarrow> returnsState (fileClose k (asInt arg1))
      | SYS_FILE_READ \<Rightarrow> returnsInt (fileRead hw k (asInt arg1) (asSize arg3)) k
      | SYS_FILE_WRITE \<Rightarrow> returnsInt (fileWrite hw k (asInt arg1) (asSize arg3)) k
      | SYS_FILE_DELETE \<Rightarrow>
          returnsInt (if fileDelete hw k (argString arg1) then SYS_OK else SYS_ERR_IO_ERROR) k
      | SYS_FILE_EXISTS \<Rightarrow> returnsInt (if fileExists hw k (argString arg1) then 1 else 0) k
      | SYS_FILE_SIZE \<Rightarrow> returnsInt (int_of_size (fileSize hw k (asInt arg1))) k
      | SYS_DIR_OPEN \<Rightarrow> returnsState (dirOpen hw k (argString arg1))
      | SYS_DIR_CLOSE \<Rightarrow> returnsState (dirClose k (asInt arg1))
      | SYS_DIR_READ \<Rightarrow>
          (let (found, entry) = dirRead hw k (asInt arg1) (argEntry arg2)
           in Some (Returns (if found then 1 else 0, k, [], OutEntry entry)))
      | SYS_DIR_CREATE \<Rightarrow>
          returnsInt (if dirCreate hw k (argString arg1) then SYS_OK else SYS_ERR_IO_ERROR) k
      | SYS_DIR_REMOVE \<Rightarrow>
          returnsInt (if dirRemove hw k (argString arg1) then SYS_OK else SYS_ERR_IO_ERROR) k
      | SYS_DIR_REWIND \<Rightarrow> returnsInt SYS_OK (dirRewind k (asInt arg1))
      | SYS_MEM_ALLOC \<Rightarrow>
          map_option (map_outcome (\<lambda>(p, k'). (sint (heapAddress hw p), k', [], NoOut)))
            (memAlloc k (asSize arg1))
      | SYS_MEM_FREE \<Rightarrow>
          Some (map_outcome (\<lambda>k'. (SYS_OK, k', [], NoOut)) (memFree k (heapOffset hw arg1)))
      | SYS_MEM_COMPACT \<Rightarrow>
          map_option (map_outcome (\<lambda>k'. (SYS_OK, k', [], NoOut))) (memCompact k)
      | SYS_TASK_YIELD \<Rightarrow>
          (case clock of
             [] \<Rightarrow> None
           | now # _ \<Rightarrow> returnsInt SYS_OK (yield k now))
      | SYS_TASK_SLEEP \<Rightarrow>
          (case clock of
             now0 # now1 # _ \<Rightarrow> returnsInt SYS_OK (sleep k (argValue arg1) now0 now1)
           | _ \<Rightarrow> None)
      | SYS_IPC_SEND \<Rightarrow>
          (case clock of
             [] \<Rightarrow> None
           | now # _ \<Rightarrow> returnsState (ipcSend k (asInt arg1) (argBuffer arg2) (asSize arg3) now))
      | SYS_IPC_RECEIVE \<Rightarrow>
          (let (r, k', buffer, fromTask) = ipcReceive k (argBuffer arg1) (asSize arg2) (argInt arg3)
           in Some (Returns (r, k', [], OutReceive buffer fromTask)))
      | SYS_IPC_POLL \<Rightarrow> returnsInt (ipcPoll k) k
      | SYS_SEM_CREATE \<Rightarrow> returnsState (semCreate k (asInt arg1) (asInt arg2) (argString arg3))
      | SYS_SEM_WAIT \<Rightarrow>
          (case semWait k (asInt arg1) (argValue arg2) clock of
             None \<Rightarrow> None
           | Some rk \<Rightarrow> returnsState rk)
      | SYS_SEM_POST \<Rightarrow> returnsState (semPost k (asInt arg1))
      | SYS_SEM_DESTROY \<Rightarrow> returnsState (semDestroy k (asInt arg1))
      | SYS_GPIO_PINMODE \<Rightarrow> returnsCalls k (gpioSetMode k (asInt arg1) (asInt arg2))
      | SYS_GPIO_WRITE \<Rightarrow> returnsCalls k (gpioWrite k (asInt arg1) (asInt arg2))
      | SYS_GPIO_READ \<Rightarrow> returnsCalls k (gpioRead hw k (asInt arg1))
      | SYS_GPIO_ANALOG_READ \<Rightarrow> returnsCalls k (gpioAnalogRead hw k (asInt arg1))
      | SYS_GPIO_ANALOG_WRITE \<Rightarrow> returnsCalls k (gpioAnalogWrite k (asInt arg1) (asInt arg2))
      | SYS_I2C_BEGIN \<Rightarrow> returnsCalls k (i2cBegin k (asByte arg1))
      | SYS_I2C_WRITE \<Rightarrow> returnsCalls k (i2cWrite hw k (asByte arg1) (argBuffer arg2) (asSize arg3))
      | SYS_I2C_READ \<Rightarrow> returnsBuffer k (i2cRead hw k (asByte arg1) (argBuffer arg2) (asSize arg3))
      | SYS_I2C_REQUEST \<Rightarrow> returnsCalls k (i2cRequest hw k (asByte arg1) (asSize arg2))
      | SYS_SPI_BEGIN \<Rightarrow> returnsCalls k (spiBegin k)
      | SYS_SPI_TRANSFER \<Rightarrow>
          returnsBuffer k (spiTransfer hw k (argBuffer arg1) (argBuffer arg2) (asSize arg3))
      | SYS_SPI_END \<Rightarrow> returnsCalls k (spiEnd k)
      | SYS_GET_TIME \<Rightarrow>
          (case clock of
             [] \<Rightarrow> None
           | now # _ \<Rightarrow> returnsInt (sint now) k)
      | _ \<Rightarrow> returnsInt SYS_ERR_INVALID_CALL k)"

subsection \<open>The mailbox as a FIFO queue\<close>

text \<open>
  The messages waiting in a ring: the \<open>count\<close> entries from \<open>head\<close> on, wrapping at
  the capacity. What a receiver can observe of a message is its sender and the first
  \<open>msgLength\<close> bytes of its data (\<open>payload\<close>). \<open>wf_queue\<close> is the ring's invariant of
  the data model: \<open>tail\<close> is \<open>head + count\<close> modulo the capacity, the count is within
  the capacity, and the waiting entries are valid.
\<close>

definition pending :: "MessageQueue \<Rightarrow> Message list" where
  "pending q = map (\<lambda>i. messages q ! ((head q + i) mod MAX_MESSAGE_QUEUE_SIZE)) [0..<nat (count q)]"

definition payload :: "Message \<Rightarrow> byte list" where
  "payload m = take (msgLength m) (msgData m)"

definition mailbox :: "MessageQueue \<Rightarrow> (int \<times> byte list) list" where
  "mailbox q = map (\<lambda>m. (fromTaskId m, payload m)) (pending q)"

definition wf_queue :: "MessageQueue \<Rightarrow> bool" where
  "wf_queue q \<longleftrightarrow>
     length (messages q) = MAX_MESSAGE_QUEUE_SIZE \<and>
     head q < MAX_MESSAGE_QUEUE_SIZE \<and>
     0 \<le> count q \<and> count q \<le> int MAX_MESSAGE_QUEUE_SIZE \<and>
     tail q = (head q + nat (count q)) mod MAX_MESSAGE_QUEUE_SIZE \<and>
     (\<forall>m \<in> set (messages q). length (msgData m) = MESSAGE_DATA_SIZE) \<and>
     (\<forall>m \<in> set (pending q). valid m \<and> msgLength m \<le> MESSAGE_DATA_SIZE)"

text \<open>
  \<open>receiveN j\<close> makes \<open>j\<close> calls of \<^verbatim>\<open>ipcReceive\<close> in a row, each with a fresh zeroed
  buffer of 64 bytes, \<^verbatim>\<open>maxLength = 64\<close> and a non-null \<^verbatim>\<open>fromTaskId\<close>, and lists what
  each call returned. \<open>received\<close> is what the receiver sees of one message.
\<close>

fun receiveN :: "nat \<Rightarrow> Kernel \<Rightarrow> (int \<times> byte list option \<times> int option) list \<times> Kernel" where
  "receiveN 0 k = ([], k)"
| "receiveN (Suc j) k =
     (case ipcReceive k (Some (replicate MESSAGE_DATA_SIZE 0)) MESSAGE_DATA_SIZE (Some 0) of
        (r, k', b, f) \<Rightarrow> (case receiveN j k' of (rs, k'') \<Rightarrow> ((r, b, f) # rs, k'')))"

definition received :: "int \<times> byte list \<Rightarrow> int \<times> byte list option \<times> int option" where
  "received m = (int (length (snd m)),
                 Some (snd m @ replicate (MESSAGE_DATA_SIZE - length (snd m)) 0),
                 Some (fst m))"

subsection \<open>Waking sleepers\<close>

text \<open>What the selection loop does to one slot: a sleeper whose deadline has passed is made ready.\<close>

definition wakeTask :: "uint32 \<Rightarrow> Task \<Rightarrow> Task" where
  "wakeTask now task =
     (if state task = TASK_SLEEPING \<and> now \<ge> sleepUntil task then task\<lparr> state := TASK_READY \<rparr>
      else task)"

subsection \<open>Capabilities\<close>

text \<open>The capability bits of a task.\<close>

definition capabilities :: "Task \<Rightarrow> bool \<times> bool \<times> bool \<times> bool \<times> bool \<times> bool" where
  "capabilities t = (canAccessSD t, canAccessDisplay t, canCreateTasks t,
                     canAccessGPIO t, canAccessI2C t, canAccessSPI t)"

subsection \<open>Blocks and their offsets\<close>

text \<open>The bytes a block takes: header and payload.\<close>

abbreviation (input) blockTotal :: "MemoryBlock \<Rightarrow> nat" where
  "blockTotal b \<equiv> HEADER_SIZE + blockSize b"

text \<open>The offset of the \<open>i\<close>-th block of a heap whose blocks are \<open>bs\<close>.\<close>

definition blockOffset :: "MemoryBlock list \<Rightarrow> nat \<Rightarrow> nat" where
  "blockOffset bs i = sum_list (map (\<lambda>b. HEADER_SIZE + blockSize b) (take i bs))"

subsection \<open>Sequences of task and heap calls\<close>

text \<open>
  The five calls of the accounting invariant, with their arguments, and what one of them
  does to the kernel state; a run of calls stops at the first one that panics, meets bytes
  the model does not know, or does not return.
\<close>

datatype HeapCall =
    CreateTask string entry_point uint32
  | KillTask int
  | MemAlloc nat
  | MemFree "nat option"
  | MemCompact

definition heapCall :: "Kernel \<Rightarrow> HeapCall \<Rightarrow> Kernel outcome option" where
  "heapCall k c =
     (case c of
        CreateTask name entry now \<Rightarrow> Some (Returns (snd (createTask k name entry now)))
      | KillTask tid \<Rightarrow> Some (Returns (killTask k tid))
      | MemAlloc size0 \<Rightarrow> map_option (map_outcome snd) (memAlloc k size0)
      | MemFree ptr \<Rightarrow> Some (memFree k ptr)
      | MemCompact \<Rightarrow> memCompact k)"

fun runCalls :: "Kernel \<Rightarrow> HeapCall list \<Rightarrow> Kernel outcome option" where
  "runCalls k [] = Some (Returns k)"
| "runCalls k (c # cs) =
     (case heapCall k c of
        Some (Returns k') \<Rightarrow> runCalls k' cs
      | r \<Rightarrow> r)"

text \<open>
  A state is \<open>accounted\<close> when the heap below the watermark is a chain of blocks within the
  capacity, the owner of every block in use and the current task are slot indices, and
  every slot is charged the bytes of the blocks in use that it owns.
\<close>

definition accounted :: "Kernel \<Rightarrow> bool" where
  "accounted k \<longleftrightarrow>
     heapUsed k \<le> KERNEL_HEAP_SIZE \<and> length (tasks k) = MAX_TASKS \<and> currentTaskId k < MAX_TASKS \<and>
     (case heapBlocks k of
        None \<Rightarrow> False
      | Some bs \<Rightarrow>
          (\<forall>b \<in> set bs. inUse b \<longrightarrow> 0 \<le> ownerTaskId b \<and> ownerTaskId b < int MAX_TASKS) \<and>
          (\<forall>i \<in> set [0..<MAX_TASKS]. memoryUsed (tasks k ! i) = ownedBytes bs i))"

text \<open>
  The calls the accounting is proved for: \<^verbatim>\<open>createTask\<close> when the slot it takes is charged
  nothing (or no slot is free), \<^verbatim>\<open>memAlloc\<close> of at most \<open>2 ^ 31\<close> bytes, \<^verbatim>\<open>memFree\<close> of null or
  of the payload address of a block of the chain, every \<^verbatim>\<open>killTask\<close> and \<^verbatim>\<open>memCompact\<close>. A run
  is admissible when each call is, in the state it is made in.
\<close>

definition admissible :: "Kernel \<Rightarrow> HeapCall \<Rightarrow> bool" where
  "admissible k c =
     (case c of
        CreateTask name entry now \<Rightarrow>
          (let tid = allocateTaskId k in tid < 0 \<or> memoryUsed (tasks k ! nat tid) = 0)
      | MemAlloc size0 \<Rightarrow> size0 \<le> 2 ^ 31
      | MemFree ptr \<Rightarrow>
          (case ptr of
             None \<Rightarrow> True
           | Some p \<Rightarrow>
               (case heapBlocks k of
                  None \<Rightarrow> False
                | Some bs \<Rightarrow> p \<in> set (map (\<lambda>i. blockOffset bs i + HEADER_SIZE) [0..<length bs])))
      | _ \<Rightarrow> True)"

fun admissibleRun :: "Kernel \<Rightarrow> HeapCall list \<Rightarrow> bool" where
  "admissibleRun k [] = True"
| "admissibleRun k (c # cs) =
     (admissible k c \<and>
      (case heapCall k c of
         Some (Returns k') \<Rightarrow> admissibleRun k' cs
       | _ \<Rightarrow> True))"

section \<open>Concrete states\<close>

text \<open>
  The states of a small run, as \<^verbatim>\<open>shell.ino\<close> makes it: boot; \<^verbatim>\<open>setup()\<close> creates the
  shell task (entry point number 1); the first \<^verbatim>\<open>schedule()\<close> of \<^verbatim>\<open>loop()\<close> selects it.
\<close>

definition shellKernel :: Kernel where
  "shellKernel = snd (createTask bootKernel ''shell'' (Some 1) 0)"

definition runningKernel :: Kernel where
  "runningKernel = fst (schedule shellKernel 1 1)"

definition idleTask :: Task where
  "idleTask = zeroTask\<lparr> taskName := ''idle'', state := TASK_READY \<rparr>"

definition freeSlot :: Task where
  "freeSlot = zeroTask\<lparr> taskId := - 1 \<rparr>"

definition shellTask :: Task where
  "shellTask = zeroTask\<lparr> taskId := 1, taskName := ''shell'', state := TASK_READY,
     entryPoint := Some 1, priority := 10, canAccessSD := True, canAccessDisplay := True,
     canAccessGPIO := True, stackTraceDepth := 1,
     stackTrace := (replicate MAX_STACK_TRACE_DEPTH \<lparr> returnAddress = None, functionName = [] \<rparr>)
                     [0 := \<lparr> returnAddress = Some 1, functionName = ''shell'' \<rparr>] \<rparr>"

definition yieldedKernel :: Kernel where
  "yieldedKernel = yield runningKernel 2"

definition sleepingKernel :: Kernel where
  "sleepingKernel = sleep runningKernel 200 10 10"

definition idlingKernel :: Kernel where
  "idlingKernel = fst (schedule sleepingKernel 100 100)"

text \<open>A semaphore created at boot with value 1 and maximum 2, and the state after one post.\<close>

definition semKernel :: Kernel where
  "semKernel = snd (semCreate bootKernel 1 2 ''lock'')"

definition postedKernel :: Kernel where
  "postedKernel = snd (semPost semKernel 0)"

text \<open>A board whose inputs read 0, with an SD card that holds the one file \<^verbatim>\<open>/log\<close>.\<close>

definition testHardware :: Hardware where
  "testHardware = \<lparr> hwDigitalRead = (\<lambda>_. 0), hwAnalogRead = (\<lambda>_. 0), hwWireWrite = 0,
     hwWireEndTransmission = 0, hwWireRequestFrom = 0, hwWireAvailable = [],
     hwSpiTransfer = (\<lambda>_. 0),
     hwSdOpen = (\<lambda>p w. p = ''/log''), hwSdIsDirectory = (\<lambda>_. False),
     hwSdRemove = (\<lambda>p. p = ''/log''), hwSdExists = (\<lambda>p. p = ''/log''),
     hwSdMkdir = (\<lambda>_. True), hwSdRmdir = (\<lambda>_. False),
     hwFileRead = (\<lambda>_ _. 0), hwFileWrite = (\<lambda>_ n. n), hwFileSize = (\<lambda>_. 0),
     hwDirNext = (\<lambda>_. None), hwHeapBase = 0x24000000 \<rparr>"

subsection \<open>Heap states\<close>

text \<open>
  Scenario 5 of the specification: three blocks of 100 bytes allocated by the idle task
  at boot (\<open>heap1\<close>, \<open>heap2\<close>, \<open>heap3\<close>), the middle one freed (\<open>heap3f\<close>), the heap
  compacted (\<open>heap3c\<close>).
\<close>

definition blockA :: MemoryBlock where
  "blockA = \<lparr> blockSize = 100, ownerTaskId = 0, inUse = True, handleId = - 1 \<rparr>"

definition blockF :: MemoryBlock where
  "blockF = \<lparr> blockSize = 100, ownerTaskId = 0, inUse = False, handleId = - 1 \<rparr>"

definition heapState :: "heap \<Rightarrow> nat \<Rightarrow> nat \<Rightarrow> Kernel" where
  "heapState h used charged =
     bootKernel\<lparr> kernelHeap := h, heapUsed := used,
                  tasks := (tasks bootKernel)[0 := idleTask\<lparr> memoryUsed := charged \<rparr>] \<rparr>"

definition heap1 :: Kernel where
  "heap1 = heapState [0 \<mapsto> blockA] 116 100"

definition heap2 :: Kernel where
  "heap2 = heapState [0 \<mapsto> blockA, 116 \<mapsto> blockA] 232 200"

definition heap3 :: Kernel where
  "heap3 = heapState [0 \<mapsto> blockA, 116 \<mapsto> blockA, 232 \<mapsto> blockA] 348 300"

definition heap3f :: Kernel where
  "heap3f = heapState [0 \<mapsto> blockA, 116 \<mapsto> blockF, 232 \<mapsto> blockA] 348 200"

definition heap3c :: Kernel where
  "heap3c = heapState [0 \<mapsto> blockA, 116 \<mapsto> blockA, 232 \<mapsto> blockA] 232 200"

text \<open>
  After the compaction the third block lives at offset 116, and the bytes at offset 232
  still hold its old header. \<open>heap3s\<close> is the state after the owner frees the block
  through the address \<^verbatim>\<open>memAlloc\<close> gave it (offset 248), \<open>heap3ff\<close> the state after the
  third block of \<open>heap3f\<close> is freed too.
\<close>

definition heap3s :: Kernel where
  "heap3s = heapState [0 \<mapsto> blockA, 116 \<mapsto> blockA, 232 \<mapsto> blockF] 232 100"

definition heap3ff :: Kernel where
  "heap3ff = heapState [0 \<mapsto> blockA, 116 \<mapsto> blockF, 232 \<mapsto> blockF] 348 100"
definition heap3fc :: Kernel where
  "heap3fc = heapState [0 \<mapsto> blockA, 116 \<mapsto> blockF, 232 \<mapsto> blockF] 116 100"

text \<open>
  A request of 4294967280 bytes at boot: the header the code writes, and the state it
  leaves.
\<close>

definition hugeBlock :: MemoryBlock where
  "hugeBlock = \<lparr> blockSize = 4294967280, ownerTaskId = 0, inUse = True, handleId = - 1 \<rparr>"

definition heapHuge :: Kernel where
  "heapHuge = heapState [0 \<mapsto> hugeBlock] 0 4294967280"

text \<open>
  The shell task of \<open>runningKernel\<close> allocates 100 bytes (\<open>allocKernel\<close>), is killed, and
  its slot is given to a new task (\<open>recycledKernel\<close>). \<open>heap3k\<close> is \<open>heap3c\<close> after a task
  is created and killed.
\<close>

definition shellBlock :: MemoryBlock where
  "shellBlock = \<lparr> blockSize = 100, ownerTaskId = 1, inUse = True, handleId = - 1 \<rparr>"

definition allocKernel :: Kernel where
  "allocKernel = runningKernel\<lparr> kernelHeap := [0 \<mapsto> shellBlock], heapUsed := 116,
     tasks := (tasks runningKernel)[1 := (tasks runningKernel ! 1)\<lparr> memoryUsed := 100 \<rparr>] \<rparr>"

definition recycledKernel :: Kernel where
  "recycledKernel = snd (createTask (killTask allocKernel 1) ''again'' None 7)"

definition heap3k :: Kernel where
  "heap3k = killTask (snd (createTask heap3c ''shell'' (Some 1) 0)) 1"


section \<open>Theorems\<close>

subsection \<open>The concrete states, evaluated\<close>

lemma bootKernel_queues:
  "messageQueues bootKernel = replicate 8 zeroQueue" "currentTaskId bootKernel = 0"
  "state (tasks bootKernel ! 0) = TASK_READY"
  by (simp_all add: bootKernel_def init_def staticKernel_def zeroQueue_def zeroMessage_def Let_def)

lemma replicate_8: "replicate 8 x = [x, x, x, x, x, x, x, x]"
  by (simp add: numeral_eq_Suc)

lemma bootKernel_tasks:
  "tasks bootKernel = [idleTask, freeSlot, freeSlot, freeSlot, freeSlot, freeSlot, freeSlot, freeSlot]"
  by (simp add: bootKernel_def init_def staticKernel_def zeroTask_def idleTask_def freeSlot_def
      Let_def replicate_8)

lemma bootKernel_misc:
  "watchdogEnabled bootKernel" "watchdogLastCheck bootKernel = 0" "heapUsed bootKernel = 0"
  "sdInitialized bootKernel" "initialized bootKernel"
  by (simp_all add: bootKernel_def init_def staticKernel_def Let_def)

lemma shellKernel_eq:
  "shellKernel = bootKernel\<lparr> tasks :=
      [idleTask, shellTask, freeSlot, freeSlot, freeSlot, freeSlot, freeSlot, freeSlot] \<rparr>"
  "fst (createTask bootKernel ''shell'' (Some 1) 0) = 1"
  by (simp_all add: shellKernel_def createTask_def allocateTaskId_def bootKernel_tasks
      shellTask_def freeSlot_def zeroTask_def Let_def upt_conv_Cons captureStackTrace_def)

lemma runningKernel_eq:
  "runningKernel = bootKernel\<lparr> tasks :=
      [idleTask, shellTask\<lparr> state := TASK_RUNNING, lastRun := 1 \<rparr>,
       freeSlot, freeSlot, freeSlot, freeSlot, freeSlot, freeSlot], currentTaskId := 1 \<rparr>"
  "snd (schedule shellKernel 1 1) = [1]"
  by (simp_all add: runningKernel_def schedule_def checkWatchdog_def shellKernel_eq
      bootKernel_misc bootKernel_queues getCurrentTask_def
      shellTask_def freeSlot_def idleTask_def zeroTask_def Let_def)

lemma yieldedKernel_eq:
  "yieldedKernel = bootKernel\<lparr> tasks :=
      [idleTask, shellTask\<lparr> state := TASK_READY, lastRun := 1, lastYield := 2 \<rparr>,
       freeSlot, freeSlot, freeSlot, freeSlot, freeSlot, freeSlot], currentTaskId := 1 \<rparr>"
  by (simp add: yieldedKernel_def yield_def runningKernel_eq getCurrentTask_def)

lemma sleepingKernel_eq:
  "sleepingKernel = bootKernel\<lparr> tasks :=
      [idleTask, shellTask\<lparr> state := TASK_SLEEPING, lastRun := 1, sleepUntil := 210, lastYield := 10 \<rparr>,
       freeSlot, freeSlot, freeSlot, freeSlot, freeSlot, freeSlot], currentTaskId := 1 \<rparr>"
  by (simp add: sleepingKernel_def sleep_def runningKernel_eq getCurrentTask_def)

lemmas task_fields = idleTask_def shellTask_def freeSlot_def zeroTask_def

lemma schedule_yielded:
  "schedule yieldedKernel 3 3 = (yieldedKernel, [])"
  by (simp add: schedule_def checkWatchdog_def yieldedKernel_eq bootKernel_misc getCurrentTask_def
      task_fields Let_def)

lemma schedule_running:
  "schedule runningKernel 5 5 = (bootKernel\<lparr> tasks :=
      [idleTask\<lparr> state := TASK_RUNNING, lastRun := 5 \<rparr>, shellTask\<lparr> state := TASK_READY, lastRun := 1 \<rparr>,
       freeSlot, freeSlot, freeSlot, freeSlot, freeSlot, freeSlot], currentTaskId := 0 \<rparr>, [])"
  by (simp add: schedule_def checkWatchdog_def runningKernel_eq bootKernel_misc getCurrentTask_def
      task_fields Let_def)

lemma idlingKernel_eq:
  "idlingKernel = bootKernel\<lparr> tasks :=
      [idleTask\<lparr> state := TASK_RUNNING, lastRun := 100 \<rparr>,
       shellTask\<lparr> state := TASK_SLEEPING, lastRun := 1, sleepUntil := 210, lastYield := 10 \<rparr>,
       freeSlot, freeSlot, freeSlot, freeSlot, freeSlot, freeSlot], currentTaskId := 0 \<rparr>"
  by (simp add: idlingKernel_def schedule_def checkWatchdog_def sleepingKernel_eq bootKernel_misc
      getCurrentTask_def task_fields Let_def)

lemma schedule_idling_early:
  "schedule idlingKernel 209 209 = (idlingKernel, [])"
  by (simp add: schedule_def checkWatchdog_def idlingKernel_eq bootKernel_misc getCurrentTask_def
      task_fields Let_def)

lemma schedule_idling:
  "schedule idlingKernel 210 210 = (bootKernel\<lparr> tasks :=
      [idleTask\<lparr> state := TASK_READY, lastRun := 100 \<rparr>,
       shellTask\<lparr> state := TASK_RUNNING, lastRun := 210, sleepUntil := 210, lastYield := 10 \<rparr>,
       freeSlot, freeSlot, freeSlot, freeSlot, freeSlot, freeSlot], currentTaskId := 1 \<rparr>, [1])"
  by (simp add: schedule_def checkWatchdog_def idlingKernel_eq bootKernel_misc getCurrentTask_def
      task_fields Let_def)


lemma bootKernel_semaphores: "semaphores bootKernel = replicate 8 zeroSemaphore"
  by (simp add: bootKernel_def init_def staticKernel_def zeroSemaphore_def Let_def)

lemma semKernel_eq:
  "semKernel = bootKernel\<lparr> semaphores :=
     \<lparr> semValue = 1, maxValue = 2, semInUse = True, semOwnerTaskId = 0, semName = ''lock'' \<rparr>
       # replicate 7 zeroSemaphore \<rparr>"
  "fst (semCreate bootKernel 1 2 ''lock'') = 0"
  by (simp_all add: semKernel_def semCreate_def allocateSemaphore_def bootKernel_semaphores
      bootKernel_queues zeroSemaphore_def Let_def upt_conv_Cons replicate_8 numeral_eq_Suc)

lemma postedKernel_eq:
  "postedKernel = bootKernel\<lparr> semaphores :=
     \<lparr> semValue = 2, maxValue = 2, semInUse = True, semOwnerTaskId = 0, semName = ''lock'' \<rparr>
       # replicate 7 zeroSemaphore \<rparr>"
  by (simp add: postedKernel_def semPost_def semKernel_eq Let_def)

subsection \<open>C1: one call of \<^verbatim>\<open>schedule\<close>\<close>

lemma scheduleLoop_step:
  "scheduleLoop now (t # rest) i b p =
     (let t' = wakeTask now t;
          r = (if state t' = TASK_READY \<and> priority t' > p
               then scheduleLoop now rest (Suc i) i (priority t')
               else scheduleLoop now rest (Suc i) b p)
      in (t' # fst r, snd r))"
  by (simp add: wakeTask_def Let_def case_prod_unfold)

lemma scheduleLoop_tasks: "fst (scheduleLoop now ts i b p) = map (wakeTask now) ts"
  by (induction ts arbitrary: i b p) (simp_all add: scheduleLoop_step Let_def del: scheduleLoop.simps(2))

lemma scheduleLoop_best:
  assumes "scheduleLoop now ts i b p = (ws, b', p')"
  shows "p \<le> p' \<and> (\<forall>j<length ws. state (ws ! j) = TASK_READY \<longrightarrow> priority (ws ! j) \<le> p')
       \<and> (p' = p \<longrightarrow> b' = b)
       \<and> (p < p' \<longrightarrow> i \<le> b' \<and> b' - i < length ws \<and> state (ws ! (b' - i)) = TASK_READY
              \<and> priority (ws ! (b' - i)) = p'
              \<and> (\<forall>j < b' - i. state (ws ! j) = TASK_READY \<longrightarrow> priority (ws ! j) < p'))"
  using assms
proof (induction ts arbitrary: i b p ws)
  case Nil
  then show ?case by simp
next
  case (Cons t rest)
  let ?t = "wakeTask now t"
  show ?case
  proof (cases "state ?t = TASK_READY \<and> priority ?t > p")
    case True
    from Cons.prems True obtain wr where
      r: "scheduleLoop now rest (Suc i) i (priority ?t) = (wr, b', p')" and ws: "ws = ?t # wr"
      by (auto simp: scheduleLoop_step Let_def prod_eq_iff simp del: scheduleLoop.simps(2))
    note ih = Cons.IH[OF r]
    show ?thesis
    proof (cases "p' = priority ?t")
      case eq: True
      with ih have b': "b' = i" by simp
      show ?thesis using True ih eq b' ws by (auto simp: nth_Cons split: nat.splits)
    next
      case False
      with ih have lt: "priority ?t < p'" by simp
      with ih have B: "Suc i \<le> b'" "b' - Suc i < length wr"
        "state (wr ! (b' - Suc i)) = TASK_READY" "priority (wr ! (b' - Suc i)) = p'"
        "\<forall>j < b' - Suc i. state (wr ! j) = TASK_READY \<longrightarrow> priority (wr ! j) < p'"
        by auto
      have d: "b' - i = Suc (b' - Suc i)" using B(1) by simp
      show ?thesis using True ih lt B ws unfolding d
        by (auto simp: nth_Cons split: nat.splits)
    qed
  next
    case False
    from Cons.prems False obtain wr where
      r: "scheduleLoop now rest (Suc i) b p = (wr, b', p')" and ws: "ws = ?t # wr"
      by (auto simp: scheduleLoop_step Let_def prod_eq_iff simp del: scheduleLoop.simps(2))
    note ih = Cons.IH[OF r]
    show ?thesis
    proof (cases "p' = p")
      case True
      then show ?thesis using False ih ws by (auto simp: nth_Cons split: nat.splits)
    next
      case ne: False
      with ih have lt: "p < p'" by simp
      with ih have B: "Suc i \<le> b'" "b' - Suc i < length wr"
        "state (wr ! (b' - Suc i)) = TASK_READY" "priority (wr ! (b' - Suc i)) = p'"
        "\<forall>j < b' - Suc i. state (wr ! j) = TASK_READY \<longrightarrow> priority (wr ! j) < p'"
        by auto
      have d: "b' - i = Suc (b' - Suc i)" using B(1) by simp
      show ?thesis using False ih lt B ws unfolding d
        by (auto simp: nth_Cons split: nat.splits)
    qed
  qed
qed

lemma checkWatchdog_frame:
  "length (tasks (checkWatchdog k now)) = length (tasks k)"
  "currentTaskId (checkWatchdog k now) = currentTaskId k"
  "i < length (tasks k) \<Longrightarrow> entryPoint (tasks (checkWatchdog k now) ! i) = entryPoint (tasks k ! i)"
  by (simp_all add: checkWatchdog_def watchdogTask_def Let_def)

lemma wakeTask_entry: "entryPoint (wakeTask now t) = entryPoint t"
  by (simp add: wakeTask_def)

text \<open>
  C1, as amended. One call of \<^verbatim>\<open>schedule()\<close> on a task table of \<open>MAX_TASKS\<close> slots, with
  \<open>k1\<close> the state after the watchdog check and \<open>ws\<close> the slots after waking:
  \<^item> it runs the watchdog check, and changes nothing else but the task table and the
    current task id;
  \<^item> every sleeping task whose \<open>sleepUntil \<le> now\<close> is woken: it is ready afterwards, or
    running when it is the one switched to;
  \<^item> the task made current is the ready task of highest priority, the one of lowest slot
    index among equals, provided some ready task has a priority of at least 0 (the
    loop starts from \<open>bestPriority = -1\<close>); when there is none, slot 0 (the idle task) is
    made current;
  \<^item> when the selected task is not the task that was current, it is marked running, its
    \<open>lastRun\<close> becomes \<open>now\<close>, and its entry point is called exactly once when it has
    one; a task without an entry point (the idle task) is switched to and nothing is
    called;
  \<^item> every other slot is as the waking left it, but for the task that was current: when
    it was running it is ready again.
  What happens when the selected task already is the current one is not part of the
  amended claim.
\<close>

theorem schedule_spec:
  fixes k :: Kernel and nowW nowS :: uint32
  defines "k1 \<equiv> checkWatchdog k nowW"
  defines "ws \<equiv> map (wakeTask nowS) (tasks k1)"
  assumes len: "length (tasks k) = MAX_TASKS" and cur: "currentTaskId k < MAX_TASKS"
    and res: "schedule k nowW nowS = (k', invoked)"
  shows "k' = k1\<lparr> tasks := tasks k', currentTaskId := currentTaskId k' \<rparr>
     \<and> length (tasks k') = MAX_TASKS \<and> currentTaskId k' < MAX_TASKS
     \<and> (\<forall>i<MAX_TASKS. state (tasks k1 ! i) = TASK_SLEEPING \<and> sleepUntil (tasks k1 ! i) \<le> nowS \<longrightarrow>
           state (tasks k' ! i) =
             (if i = currentTaskId k' \<and> i \<noteq> currentTaskId k then TASK_RUNNING else TASK_READY))
     \<and> ((\<exists>i<MAX_TASKS. state (ws ! i) = TASK_READY \<and> 0 \<le> priority (ws ! i)) \<longrightarrow>
           state (ws ! currentTaskId k') = TASK_READY
           \<and> (\<forall>i<MAX_TASKS. state (ws ! i) = TASK_READY \<longrightarrow>
                 priority (ws ! i) \<le> priority (ws ! currentTaskId k'))
           \<and> (\<forall>i<currentTaskId k'. state (ws ! i) = TASK_READY \<longrightarrow>
                 priority (ws ! i) < priority (ws ! currentTaskId k')))
     \<and> (\<not> (\<exists>i<MAX_TASKS. state (ws ! i) = TASK_READY \<and> 0 \<le> priority (ws ! i)) \<longrightarrow>
           currentTaskId k' = 0)
     \<and> (currentTaskId k' \<noteq> currentTaskId k \<longrightarrow>
           tasks k' ! currentTaskId k' =
             (ws ! currentTaskId k')\<lparr> state := TASK_RUNNING, lastRun := nowS \<rparr>
           \<and> invoked = (case entryPoint (tasks k ! currentTaskId k') of
                          Some f \<Rightarrow> [f] | None \<Rightarrow> []))
     \<and> (\<forall>i<MAX_TASKS. i \<noteq> currentTaskId k' \<longrightarrow>
           tasks k' ! i =
             (if i = currentTaskId k \<and> state (ws ! i) = TASK_RUNNING
              then (ws ! i)\<lparr> state := TASK_READY \<rparr> else ws ! i))"
proof -
  obtain ts b p where loop: "scheduleLoop nowS (tasks k1) 0 0 (- 1) = (ts, b, p)"
    by (cases "scheduleLoop nowS (tasks k1) 0 0 (- 1)") auto
  have ts: "ts = ws" using scheduleLoop_tasks[of nowS "tasks k1" 0 0 "- 1"] loop by (simp add: ws_def)
  have len1: "length (tasks k1) = 8" and cur1: "currentTaskId k1 = currentTaskId k"
    by (simp_all add: k1_def checkWatchdog_frame len)
  have lws: "length ws = 8" by (simp add: ws_def len1)
  note best = scheduleLoop_best[OF loop, unfolded ts]
  have p: "- 1 \<le> p" using best by simp
  have b8: "b < 8"
  proof (cases "p = - 1")
    case True then show ?thesis using best by simp
  next
    case False then show ?thesis using best p lws by auto
  qed
  let ?cur = "currentTaskId k"
  let ?ts1 = "if state (ws ! ?cur) = TASK_RUNNING then ws[?cur := (ws ! ?cur)\<lparr> state := TASK_READY \<rparr>] else ws"
  let ?ts2 = "?ts1[b := (?ts1 ! b)\<lparr> state := TASK_RUNNING, lastRun := nowS \<rparr>]"
  let ?k3 = "if b \<noteq> ?cur then k1\<lparr> tasks := ws, currentTaskId := b, tasks := ?ts2 \<rparr> else k1\<lparr> tasks := ws \<rparr>"
  have sch: "schedule k nowW nowS = (?k3,
       if entryPoint (getCurrentTask ?k3) \<noteq> None \<and> state (getCurrentTask ?k3) = TASK_RUNNING
       then [the (entryPoint (getCurrentTask ?k3))] else [])"
    unfolding schedule_def k1_def[symmetric] using loop[unfolded ts]
    by (simp add: Let_def cur1)
  have "(k', invoked) = (?k3,
       if entryPoint (getCurrentTask ?k3) \<noteq> None \<and> state (getCurrentTask ?k3) = TASK_RUNNING
       then [the (entryPoint (getCurrentTask ?k3))] else [])"
    using res sch by (simp only:)
  then have k': "k' = ?k3"
    and inv: "invoked = (if entryPoint (getCurrentTask ?k3) \<noteq> None \<and> state (getCurrentTask ?k3) = TASK_RUNNING
       then [the (entryPoint (getCurrentTask ?k3))] else [])"
    by (simp_all only: prod.inject)
  have sel: "currentTaskId k' = b" using k' cur1 by (simp split: if_splits)
  have tk': "tasks k' = (if b \<noteq> ?cur then ?ts2 else ws)" using k' by simp
  have c1: "k' = k1\<lparr> tasks := tasks k', currentTaskId := currentTaskId k' \<rparr>"
    unfolding sel tk' using k' cur1 by (auto split: if_splits)
  have c2: "length (tasks k') = 8" unfolding tk' using lws by simp
  have c3: "currentTaskId k' < 8" using sel b8 by simp
  have c4: "\<forall>i<8. state (tasks k1 ! i) = TASK_SLEEPING \<and> sleepUntil (tasks k1 ! i) \<le> nowS \<longrightarrow>
           state (tasks k' ! i) =
             (if i = currentTaskId k' \<and> i \<noteq> currentTaskId k then TASK_RUNNING else TASK_READY)"
  proof (intro allI impI)
    fix i assume i: "i < 8" and s: "state (tasks k1 ! i) = TASK_SLEEPING \<and> sleepUntil (tasks k1 ! i) \<le> nowS"
    have w: "state (ws ! i) = TASK_READY" using i s len1 by (simp add: ws_def wakeTask_def)
    show "state (tasks k' ! i) =
             (if i = currentTaskId k' \<and> i \<noteq> currentTaskId k then TASK_RUNNING else TASK_READY)"
      unfolding sel tk' using w i lws cur by (auto simp: nth_list_update)
  qed
  have c5: "(\<exists>i<8. state (ws ! i) = TASK_READY \<and> 0 \<le> priority (ws ! i)) \<longrightarrow>
           state (ws ! currentTaskId k') = TASK_READY
           \<and> (\<forall>i<8. state (ws ! i) = TASK_READY \<longrightarrow> priority (ws ! i) \<le> priority (ws ! currentTaskId k'))
           \<and> (\<forall>i<currentTaskId k'. state (ws ! i) = TASK_READY \<longrightarrow>
                 priority (ws ! i) < priority (ws ! currentTaskId k'))"
  proof
    assume "\<exists>i<8. state (ws ! i) = TASK_READY \<and> 0 \<le> priority (ws ! i)"
    then obtain i where "i < 8" "state (ws ! i) = TASK_READY" "0 \<le> priority (ws ! i)" by blast
    with best lws have "0 \<le> p" by fastforce
    then have "- 1 < p" by simp
    with best show "state (ws ! currentTaskId k') = TASK_READY
           \<and> (\<forall>i<8. state (ws ! i) = TASK_READY \<longrightarrow> priority (ws ! i) \<le> priority (ws ! currentTaskId k'))
           \<and> (\<forall>i<currentTaskId k'. state (ws ! i) = TASK_READY \<longrightarrow>
                 priority (ws ! i) < priority (ws ! currentTaskId k'))"
      unfolding sel using lws by simp
  qed
  have c6: "\<not> (\<exists>i<8. state (ws ! i) = TASK_READY \<and> 0 \<le> priority (ws ! i)) \<longrightarrow> currentTaskId k' = 0"
  proof
    assume n: "\<not> (\<exists>i<8. state (ws ! i) = TASK_READY \<and> 0 \<le> priority (ws ! i))"
    have "p = - 1"
    proof (rule ccontr)
      assume "p \<noteq> - 1"
      with p have "- 1 < p" by simp
      with best have "b < length ws" "state (ws ! b) = TASK_READY" "priority (ws ! b) = p" by auto
      with n lws \<open>- 1 < p\<close> show False by auto
    qed
    with best show "currentTaskId k' = 0" unfolding sel by simp
  qed
  have ep: "entryPoint (ws ! b) = entryPoint (tasks k ! b)"
    using b8 len len1 by (simp add: ws_def wakeTask_entry k1_def checkWatchdog_frame)
  have c7: "currentTaskId k' \<noteq> currentTaskId k \<longrightarrow>
           tasks k' ! currentTaskId k' = (ws ! currentTaskId k')\<lparr> state := TASK_RUNNING, lastRun := nowS \<rparr>
           \<and> invoked = (case entryPoint (tasks k ! currentTaskId k') of Some f \<Rightarrow> [f] | None \<Rightarrow> [])"
  proof
    assume ne: "currentTaskId k' \<noteq> currentTaskId k"
    then have bne: "b \<noteq> ?cur" using sel by simp
    have t: "tasks k' ! b = (ws ! b)\<lparr> state := TASK_RUNNING, lastRun := nowS \<rparr>"
      unfolding tk' using bne b8 lws by (simp add: nth_list_update)
    have g: "getCurrentTask ?k3 = tasks k' ! b" using bne tk' by (simp add: getCurrentTask_def)
    have "invoked = (case entryPoint (tasks k ! b) of Some f \<Rightarrow> [f] | None \<Rightarrow> [])"
      unfolding inv g t using ep by (auto split: option.splits)
    with t show "tasks k' ! currentTaskId k' = (ws ! currentTaskId k')\<lparr> state := TASK_RUNNING, lastRun := nowS \<rparr>
           \<and> invoked = (case entryPoint (tasks k ! currentTaskId k') of Some f \<Rightarrow> [f] | None \<Rightarrow> [])"
      unfolding sel by simp
  qed
  have c8: "\<forall>i<8. i \<noteq> currentTaskId k' \<longrightarrow>
           tasks k' ! i = (if i = currentTaskId k \<and> state (ws ! i) = TASK_RUNNING
              then (ws ! i)\<lparr> state := TASK_READY \<rparr> else ws ! i)"
    unfolding sel tk' using lws by (auto simp: nth_list_update)
  show ?thesis using c1 c2 c3 c4 c5 c6 c7 c8 by blast
qed

text \<open>
  C1 as stated fails. In \<open>yieldedKernel\<close> the shell task (slot 1, priority 10, entry
  point 1) has run once and called \<^verbatim>\<open>yield()\<close>: it is the ready task of highest priority
  and it is still the current task. \<^verbatim>\<open>schedule()\<close> at time 3 selects it again, but leaves
  it ready, leaves its \<open>lastRun\<close> at 1 and calls nothing. In \<open>runningKernel\<close> the shell task
  is running and has not yielded, so the idle task is the only ready one:
  \<^verbatim>\<open>schedule()\<close> at time 5 switches to it and marks it running, but it has no entry
  point and nothing is called.
\<close>

theorem schedule_counterexample:
  "map state (tasks yieldedKernel) = [TASK_READY, TASK_READY, TASK_EMPTY, TASK_EMPTY,
                                       TASK_EMPTY, TASK_EMPTY, TASK_EMPTY, TASK_EMPTY]
   \<and> map priority (tasks yieldedKernel) = [0, 10, 0, 0, 0, 0, 0, 0]
   \<and> entryPoint (tasks yieldedKernel ! 1) = Some 1
   \<and> currentTaskId (fst (schedule yieldedKernel 3 3)) = 1
   \<and> state (tasks (fst (schedule yieldedKernel 3 3)) ! 1) = TASK_READY
   \<and> lastRun (tasks (fst (schedule yieldedKernel 3 3)) ! 1) = 1
   \<and> snd (schedule yieldedKernel 3 3) = []
   \<and> map state (tasks runningKernel) = [TASK_READY, TASK_RUNNING, TASK_EMPTY, TASK_EMPTY,
                                        TASK_EMPTY, TASK_EMPTY, TASK_EMPTY, TASK_EMPTY]
   \<and> currentTaskId (fst (schedule runningKernel 5 5)) = 0
   \<and> state (tasks (fst (schedule runningKernel 5 5)) ! 0) = TASK_RUNNING
   \<and> lastRun (tasks (fst (schedule runningKernel 5 5)) ! 0) = 5
   \<and> snd (schedule runningKernel 5 5) = []"
  unfolding schedule_yielded schedule_running
  by (simp add: yieldedKernel_eq runningKernel_eq task_fields)

text \<open>
  The theorem at two calls: the first \<^verbatim>\<open>schedule()\<close> after the shell task was created,
  and the call at time 210 that wakes the shell task, asleep until 210 while the idle
  task is current.
\<close>

theorem schedule_spec_witness:
  "length (tasks shellKernel) = MAX_TASKS \<and> currentTaskId shellKernel = 0
   \<and> currentTaskId (fst (schedule shellKernel 1 1)) = 1
   \<and> state (tasks (fst (schedule shellKernel 1 1)) ! 1) = TASK_RUNNING
   \<and> lastRun (tasks (fst (schedule shellKernel 1 1)) ! 1) = 1
   \<and> snd (schedule shellKernel 1 1) = [1]
   \<and> length (tasks idlingKernel) = MAX_TASKS \<and> currentTaskId idlingKernel = 0
   \<and> state (tasks (checkWatchdog idlingKernel 210) ! 1) = TASK_SLEEPING
   \<and> sleepUntil (tasks (checkWatchdog idlingKernel 210) ! 1) \<le> 210
   \<and> currentTaskId (fst (schedule idlingKernel 210 210)) = 1
   \<and> state (tasks (fst (schedule idlingKernel 210 210)) ! 1) = TASK_RUNNING
   \<and> snd (schedule idlingKernel 210 210) = [1]"
proof -
  let ?k = "fst (schedule shellKernel 1 1)" and ?inv = "snd (schedule shellKernel 1 1)"
  let ?ws = "map (wakeTask 1) (tasks (checkWatchdog shellKernel 1))"
  have pre: "length (tasks shellKernel) = MAX_TASKS" "currentTaskId shellKernel < MAX_TASKS"
    "currentTaskId shellKernel = 0"
    by (simp_all add: shellKernel_eq bootKernel_queues)
  have cur: "currentTaskId ?k = 1" "currentTaskId ?k \<noteq> currentTaskId shellKernel"
    by (simp_all add: runningKernel_eq[unfolded runningKernel_def] pre)
  have ws: "?ws ! 1 = shellTask" "entryPoint (tasks shellKernel ! 1) = Some 1"
    by (simp_all add: checkWatchdog_def shellKernel_eq bootKernel_misc wakeTask_def task_fields)
  from schedule_spec[OF pre(1,2), of 1 1 ?k ?inv] cur
  have "tasks ?k ! currentTaskId ?k = (?ws ! currentTaskId ?k)\<lparr> state := TASK_RUNNING, lastRun := 1 \<rparr>
        \<and> ?inv = (case entryPoint (tasks shellKernel ! currentTaskId ?k) of Some f \<Rightarrow> [f] | None \<Rightarrow> [])"
    by simp
  then have a: "state (tasks ?k ! 1) = TASK_RUNNING" "lastRun (tasks ?k ! 1) = 1" "?inv = [1]"
    unfolding cur(1) ws by simp_all
  let ?k2 = "fst (schedule idlingKernel 210 210)" and ?inv2 = "snd (schedule idlingKernel 210 210)"
  let ?ws2 = "map (wakeTask 210) (tasks (checkWatchdog idlingKernel 210))"
  have pre2: "length (tasks idlingKernel) = MAX_TASKS" "currentTaskId idlingKernel < MAX_TASKS"
    "currentTaskId idlingKernel = 0"
    by (simp_all add: idlingKernel_eq bootKernel_queues)
  have cur2: "currentTaskId ?k2 = 1" "currentTaskId ?k2 \<noteq> currentTaskId idlingKernel"
    by (simp_all add: schedule_idling pre2)
  have sl: "state (tasks (checkWatchdog idlingKernel 210) ! 1) = TASK_SLEEPING"
    "sleepUntil (tasks (checkWatchdog idlingKernel 210) ! 1) \<le> 210"
    "entryPoint (tasks idlingKernel ! 1) = Some 1"
    by (simp_all add: checkWatchdog_def idlingKernel_eq bootKernel_misc task_fields)
  from schedule_spec[OF pre2(1,2), of 210 210 ?k2 ?inv2] cur2 sl
  have "state (tasks ?k2 ! 1) = TASK_RUNNING
        \<and> ?inv2 = (case entryPoint (tasks idlingKernel ! currentTaskId ?k2) of Some f \<Rightarrow> [f] | None \<Rightarrow> [])"
    by simp
  then have b: "state (tasks ?k2 ! 1) = TASK_RUNNING" "?inv2 = [1]"
    unfolding cur2(1) sl by simp_all
  show ?thesis using pre pre2 cur cur2 sl a b by simp
qed

subsection \<open>The heap as a chain of blocks\<close>

lemma heapWalk_Nil: "heapWalk h off used = Some [] \<longleftrightarrow> off = used"
  by (subst heapWalk.simps) (auto split: option.splits)

lemma heapWalk_Cons:
  "heapWalk h off used = Some (b # bs) \<longleftrightarrow>
     off < used \<and> h off = Some b \<and> heapWalk h (off + blockTotal b) used = Some bs"
  by (subst heapWalk.simps) (auto split: option.splits simp: add.assoc)

lemma heapWalk_extent:
  "heapWalk h off used = Some bs \<Longrightarrow> used = off + sum_list (map blockTotal bs)"
proof (induction bs arbitrary: off)
  case Nil
  then show ?case by (simp add: heapWalk_Nil)
next
  case (Cons b bs)
  then have "heapWalk h (off + blockTotal b) used = Some bs" by (simp add: heapWalk_Cons)
  from Cons.IH[OF this] show ?case by simp
qed

lemma heapWalk_cong:
  assumes "heapWalk h off used = Some bs"
    and "\<And>p. off \<le> p \<Longrightarrow> p + HEADER_SIZE \<le> used \<Longrightarrow> h' p = h p"
  shows "heapWalk h' off used = Some bs"
  using assms
proof (induction bs arbitrary: off)
  case Nil
  then show ?case by (simp add: heapWalk_Nil)
next
  case (Cons b bs)
  from Cons.prems(1) have lt: "off < used" and hb: "h off = Some b"
    and rest: "heapWalk h (off + blockTotal b) used = Some bs"
    by (auto simp: heapWalk_Cons)
  from heapWalk_extent[OF rest] have ext: "off + blockTotal b \<le> used" by simp
  have "h' off = Some b" using Cons.prems(2)[of off] ext hb by simp
  moreover have "heapWalk h' (off + blockTotal b) used = Some bs"
    by (rule Cons.IH[OF rest]) (use Cons.prems(2) in auto)
  ultimately show ?case using lt by (simp add: heapWalk_Cons)
qed

lemma heapWalk_append:
  assumes "heapWalk h off mid = Some cs" "heapWalk h mid used = Some bs"
  shows "heapWalk h off used = Some (cs @ bs)"
  using assms
proof (induction cs arbitrary: off)
  case Nil
  then show ?case by (simp add: heapWalk_Nil)
next
  case (Cons c cs)
  from heapWalk_extent[OF Cons.prems(2)] have "mid \<le> used" by simp
  with Cons show ?case by (auto simp: heapWalk_Cons)
qed

lemma heapWalk_single:
  "h off = Some b \<Longrightarrow> heapWalk h off (off + blockTotal b) = Some [b]"
  by (simp add: heapWalk_Cons heapWalk_Nil)

lemma sz_add_small: "a + b < 2 ^ 32 \<Longrightarrow> sz_add a b = a + b"
  by (simp add: sz_add_def)

lemma compactLoop_chain:
  assumes "heapWalk h 0 w = Some cs" "heapWalk h r used = Some bs" "w \<le> r"
    and "used \<le> KERNEL_HEAP_SIZE"
  shows "\<exists>h'. compactLoop h used r w =
                 Some (Returns (h', w + sum_list (map blockTotal (filter inUse bs))))
            \<and> heapWalk h' 0 (w + sum_list (map blockTotal (filter inUse bs)))
                 = Some (cs @ filter inUse bs)"
  using assms
proof (induction bs arbitrary: h r w cs)
  case Nil
  then have "r = used" by (simp add: heapWalk_Nil)
  then show ?case using Nil.prems(1) by (subst compactLoop.simps) simp
next
  case (Cons b bs)
  from Cons.prems(2) have lt: "r < used" and hb: "h r = Some b"
    and rest: "heapWalk h (r + blockTotal b) used = Some bs"
    by (auto simp: heapWalk_Cons)
  from heapWalk_extent[OF rest] have ext: "r + blockTotal b \<le> used" by simp
  have cap: "r + blockTotal b \<le> KERNEL_HEAP_SIZE" using ext Cons.prems(4) by simp
  have tot: "sz_add HEADER_SIZE (blockSize b) = blockTotal b" using cap by (simp add: sz_add_small)
  have rd: "sz_add r (blockTotal b) = r + blockTotal b" using cap by (simp add: sz_add_small)
  have wr: "sz_add w (blockTotal b) = w + blockTotal b"
    using cap Cons.prems(3) by (simp add: sz_add_small)
  show ?case
  proof (cases "inUse b")
    case False
    from Cons.IH[OF Cons.prems(1) rest _ Cons.prems(4)] Cons.prems(3)
    obtain h' where "compactLoop h used (r + blockTotal b) w =
                 Some (Returns (h', w + sum_list (map blockTotal (filter inUse bs))))"
      and "heapWalk h' 0 (w + sum_list (map blockTotal (filter inUse bs))) = Some (cs @ filter inUse bs)"
      by auto
    then show ?thesis using False lt hb tot rd cap Cons.prems(3)
      by (subst compactLoop.simps) (auto simp: Let_def)
  next
    case True
    define h1 where "h1 = (if w \<noteq> r then memmoveBlock h w (blockTotal b) b else h)"
    have h1w: "h1 w = Some b"
      using hb by (auto simp: h1_def memmoveBlock_def)
    have low: "h1 p = h p" if "p + HEADER_SIZE \<le> w" for p
      using that by (auto simp: h1_def memmoveBlock_def clobber_def)
    have high: "h1 p = h p" if "r + blockTotal b \<le> p" for p
      using that Cons.prems(3) by (auto simp: h1_def memmoveBlock_def clobber_def)
    have c1: "heapWalk h1 0 w = Some cs"
      by (rule heapWalk_cong[OF Cons.prems(1)]) (simp add: low)
    have c2: "heapWalk h1 0 (w + blockTotal b) = Some (cs @ [b])"
      by (rule heapWalk_append[OF c1 heapWalk_single[where h = h1 and off = w and b = b, OF h1w]])
    have r2: "heapWalk h1 (r + blockTotal b) used = Some bs"
      by (rule heapWalk_cong[OF rest]) (simp add: high)
    from Cons.IH[OF c2 r2 _ Cons.prems(4)] Cons.prems(3)
    obtain h' where l: "compactLoop h1 used (r + blockTotal b) (w + blockTotal b) =
                 Some (Returns (h', w + blockTotal b + sum_list (map blockTotal (filter inUse bs))))"
      and w': "heapWalk h' 0 (w + blockTotal b + sum_list (map blockTotal (filter inUse bs)))
                 = Some ((cs @ [b]) @ filter inUse bs)"
      by auto
    have "compactLoop h used r w = compactLoop h1 used (r + blockTotal b) (w + blockTotal b)"
      using True lt hb tot rd wr cap Cons.prems(3)
      by (subst compactLoop.simps) (auto simp: Let_def h1_def)
    then show ?thesis using l w' True by (simp add: add.assoc)
  qed
qed

lemma blockOffset_0: "blockOffset bs 0 = 0"
  by (simp add: blockOffset_def)

lemma blockOffset_Suc: "blockOffset (b # bs) (Suc i) = blockTotal b + blockOffset bs i"
  by (simp add: blockOffset_def)

lemma heapWalk_nth:
  assumes "heapWalk h off used = Some bs" "i < length bs"
  shows "h (off + blockOffset bs i) = Some (bs ! i)
       \<and> off + blockOffset bs i + blockTotal (bs ! i) \<le> used"
  using assms
proof (induction bs arbitrary: off i)
  case Nil
  then show ?case by simp
next
  case (Cons b bs)
  from Cons.prems(1) have hb: "h off = Some b"
    and rest: "heapWalk h (off + blockTotal b) used = Some bs"
    by (auto simp: heapWalk_Cons)
  show ?case
  proof (cases i)
    case 0
    then show ?thesis using hb heapWalk_extent[OF rest] by (simp add: blockOffset_0)
  next
    case (Suc j)
    then have "j < length bs" using Cons.prems(2) by simp
    from Cons.IH[OF rest this] show ?thesis using Suc by (simp add: blockOffset_Suc add.assoc)
  qed
qed

lemma heapWalk_update:
  assumes "heapWalk h off used = Some bs" "i < length bs" "blockSize b' = blockSize (bs ! i)"
  shows "heapWalk (h(off + blockOffset bs i := Some b')) off used = Some (bs[i := b'])"
  using assms
proof (induction bs arbitrary: off i)
  case Nil
  then show ?case by simp
next
  case (Cons b bs)
  from Cons.prems(1) have lt: "off < used" and hb: "h off = Some b"
    and rest: "heapWalk h (off + blockTotal b) used = Some bs"
    by (auto simp: heapWalk_Cons)
  show ?case
  proof (cases i)
    case 0
    have "heapWalk (h(off := Some b')) (off + blockTotal b') used = Some bs"
      unfolding Cons.prems(3)[unfolded 0, simplified]
      by (rule heapWalk_cong[OF rest]) simp
    then have "heapWalk (h(off := Some b')) off used = Some (b' # bs)"
      using lt by (subst heapWalk_Cons) simp
    then show ?thesis unfolding 0 by (simp only: blockOffset_0 add_0_right list_update_code)
  next
    case (Suc j)
    then have j: "j < length bs" and sz: "blockSize b' = blockSize (bs ! j)"
      using Cons.prems(2,3) by simp_all
    from Cons.IH[OF rest j sz]
    have "heapWalk (h(off + blockTotal b + blockOffset bs j := Some b')) (off + blockTotal b) used
            = Some (bs[j := b'])" .
    moreover have "(h(off + blockTotal b + blockOffset bs j := Some b')) off = Some b"
      using hb by simp
    ultimately have "heapWalk (h(off + blockTotal b + blockOffset bs j := Some b')) off used
            = Some (b # bs[j := b'])"
      using lt by (subst heapWalk_Cons) (simp only: simp_thms)
    then show ?thesis unfolding Suc
      by (simp only: blockOffset_Suc list_update_code add.assoc)
  qed
qed

lemma blockTotal_split:
  "sum_list (map blockTotal bs) = sum_list (map blockTotal (filter inUse bs)) + freeSpace bs"
  by (induction bs) (simp_all add: freeSpace_def)

lemma sz_sub_small:
  assumes "b \<le> a" "a < 2 ^ 32"
  shows "sz_sub a b = a - b"
proof -
  have b: "b < 2 ^ 32" using assms by simp
  have "a + 2 ^ 32 - b = (a - b) + 2 ^ 32" using assms(1) by simp
  then have "(a + 2 ^ 32 - b) mod 2 ^ 32 = (a - b) mod 2 ^ 32" by (simp only: mod_add_self2)
  moreover have "a - b < 2 ^ 32" using assms(2) by simp
  ultimately show ?thesis using assms(2) b by (simp add: sz_sub_def)
qed

lemma memAvailable_small: "heapUsed k \<le> KERNEL_HEAP_SIZE \<Longrightarrow> memAvailable k = KERNEL_HEAP_SIZE - heapUsed k"
  by (simp add: memAvailable_def sz_sub_small)

lemma compactMemory_blocks:
  assumes "heapBlocks k = Some bs" "heapUsed k \<le> KERNEL_HEAP_SIZE"
  shows "\<exists>k'. compactMemory k = Some (Returns k')
            \<and> k' = k\<lparr> kernelHeap := kernelHeap k', heapUsed := heapUsed k' \<rparr>
            \<and> heapBlocks k' = Some (filter inUse bs)
            \<and> heapUsed k' + freeSpace bs = heapUsed k
            \<and> memAvailable k' = memAvailable k + freeSpace bs"
proof -
  have w0: "heapWalk (kernelHeap k) 0 0 = Some []" by (simp add: heapWalk_Nil)
  from compactLoop_chain[OF w0 assms(1)[unfolded heapBlocks_def] _ assms(2)]
  obtain h' where l: "compactLoop (kernelHeap k) (heapUsed k) 0 0 =
                 Some (Returns (h', sum_list (map blockTotal (filter inUse bs))))"
    and w: "heapWalk h' 0 (sum_list (map blockTotal (filter inUse bs))) = Some (filter inUse bs)"
    by auto
  let ?u = "sum_list (map blockTotal (filter inUse bs))"
  let ?k = "k\<lparr> kernelHeap := h', heapUsed := ?u \<rparr>"
  have c: "compactMemory k = Some (Returns ?k)" by (simp add: compactMemory_def l)
  have u: "?u + freeSpace bs = heapUsed k"
    using heapWalk_extent[OF assms(1)[unfolded heapBlocks_def]] blockTotal_split[of bs] by simp
  have "memAvailable ?k = memAvailable k + freeSpace bs"
    using u assms(2) by (simp add: memAvailable_small)
  then show ?thesis using c w u by (intro exI[of _ ?k]) (simp add: heapBlocks_def)
qed

lemma freeMemoryInternal_block:
  assumes "kernelHeap k off = Some b" "inUse b"
  shows "freeMemoryInternal k (Some (off + HEADER_SIZE)) =
     Returns (k\<lparr> tasks := (if 0 \<le> ownerTaskId b \<and> ownerTaskId b < int MAX_TASKS
                            then (tasks k)[nat (ownerTaskId b) := (tasks k ! nat (ownerTaskId b))
                                   \<lparr> memoryUsed := sz_sub (memoryUsed (tasks k ! nat (ownerTaskId b)))
                                                           (blockSize b) \<rparr>]
                            else tasks k),
                  kernelHeap := (kernelHeap k)(off := Some (b\<lparr> inUse := False \<rparr>)) \<rparr>)"
  using assms by (simp add: freeMemoryInternal_def Let_def)

lemma freeSpace_update:
  assumes "i < length bs" "inUse (bs ! i)"
  shows "freeSpace (bs[i := (bs ! i)\<lparr> inUse := False \<rparr>]) = freeSpace bs + blockTotal (bs ! i)"
  using assms
proof (induction bs arbitrary: i)
  case Nil then show ?case by simp
next
  case (Cons b bs)
  then show ?case by (cases i) (auto simp: freeSpace_def)
qed

subsection \<open>The heap states, evaluated\<close>

lemma clobber_empty: "clobber (\<lambda>_. None) a b = (\<lambda>_. None)"
  by (simp add: clobber_def)

lemma clobber_upd_below:
  "off + HEADER_SIZE \<le> a \<Longrightarrow> clobber (h(off := v)) a b = (clobber h a b)(off := v)"
  by (auto simp: clobber_def fun_eq_iff)

lemma clobber_upd_above:
  "b \<le> off \<Longrightarrow> clobber (h(off := v)) a b = (clobber h a b)(off := v)"
  by (auto simp: clobber_def fun_eq_iff)

lemma clobber_upd_in:
  "a < off + HEADER_SIZE \<Longrightarrow> off < b \<Longrightarrow> clobber (h(off := v)) a b = clobber h a b"
  by (auto simp: clobber_def fun_eq_iff)

lemmas clobber_simps = clobber_empty clobber_upd_below clobber_upd_above clobber_upd_in

lemma bootKernel_heap: "kernelHeap bootKernel = (\<lambda>_. None)" "heapUsed bootKernel = 0"
  by (simp_all add: bootKernel_def init_def staticKernel_def Let_def)

lemma heapState_fields:
  "kernelHeap (heapState h u c) = h" "heapUsed (heapState h u c) = u"
  "currentTaskId (heapState h u c) = 0"
  "tasks (heapState h u c) = (tasks bootKernel)[0 := idleTask\<lparr> memoryUsed := c \<rparr>]"
  by (simp_all add: heapState_def bootKernel_queues)

lemma bootKernel_heapState: "bootKernel = heapState (\<lambda>_. None) 0 0"
proof -
  have t: "(tasks bootKernel)[0 := idleTask\<lparr> memoryUsed := 0 \<rparr>] = tasks bootKernel"
    by (simp add: bootKernel_tasks idleTask_def zeroTask_def)
  have "heapState (kernelHeap bootKernel) (heapUsed bootKernel) 0 = bootKernel"
    unfolding heapState_def t by simp
  then show ?thesis by (simp only: bootKernel_heap)
qed

lemma placeBlock_heapState:
  "c + sz < 2 ^ 32 \<Longrightarrow> placeBlock (heapState h u c) sz tot 0 =
     (Some (u + HEADER_SIZE),
      heapState ((clobber h u (u + HEADER_SIZE + sz))
                   (u := Some \<lparr> blockSize = sz, ownerTaskId = 0, inUse = True, handleId = - 1 \<rparr>))
        (sz_add u tot) (c + sz))"
  by (simp add: placeBlock_def heapState_def Let_def bootKernel_tasks sz_add_def idleTask_def)

lemma memAlloc_boot: "memAlloc bootKernel 100 = Some (Returns (Some 16, heap1))"
  unfolding bootKernel_heapState
  by (simp add: memAlloc_def allocateMemoryInternal_def heapState_fields placeBlock_heapState
      sz_add_def Let_def heap1_def blockA_def clobber_simps)

lemma memAlloc_heap1: "memAlloc heap1 100 = Some (Returns (Some 132, heap2))"
  by (simp add: memAlloc_def allocateMemoryInternal_def heapState_fields placeBlock_heapState
      sz_add_def Let_def heap1_def heap2_def blockA_def clobber_simps)

lemma memAlloc_heap2: "memAlloc heap2 100 = Some (Returns (Some 248, heap3))"
  by (simp add: memAlloc_def allocateMemoryInternal_def heapState_fields placeBlock_heapState
      sz_add_def Let_def heap2_def heap3_def blockA_def clobber_simps)


lemma memFree_heapState:
  assumes "h off = Some b" "inUse b" "ownerTaskId b = 0" "blockSize b \<le> c" "c < 2 ^ 32"
  shows "memFree (heapState h u c) (Some (off + HEADER_SIZE)) =
           Returns (heapState (h(off := Some (b\<lparr> inUse := False \<rparr>))) u (c - blockSize b))"
  using assms
  by (simp add: memFree_def freeMemoryInternal_def heapState_def Let_def bootKernel_tasks
      sz_sub_small idleTask_def)

lemma heap3_walk:
  "h 0 = Some b0 \<Longrightarrow> h 116 = Some b1 \<Longrightarrow> h 232 = Some b2 \<Longrightarrow>
   blockSize b0 = 100 \<Longrightarrow> blockSize b1 = 100 \<Longrightarrow> blockSize b2 = 100 \<Longrightarrow>
   heapWalk h 0 348 = Some [b0, b1, b2]"
  by (simp add: heapWalk_Cons heapWalk_Nil)

lemma heap2_walk:
  "h 0 = Some b0 \<Longrightarrow> h 116 = Some b1 \<Longrightarrow> blockSize b0 = 100 \<Longrightarrow> blockSize b1 = 100 \<Longrightarrow>
   heapWalk h 0 232 = Some [b0, b1]"
  by (simp add: heapWalk_Cons heapWalk_Nil)

lemma heapBlocks_heap3:
  "heapBlocks heap3 = Some [blockA, blockA, blockA]"
  "heapBlocks heap3f = Some [blockA, blockF, blockA]"
  "heapBlocks heap3ff = Some [blockA, blockF, blockF]"
  "heapBlocks heap3c = Some [blockA, blockA]"
  "heapBlocks heap3s = Some [blockA, blockA]"
  by (simp_all add: heapBlocks_def heap3_def heap3f_def heap3ff_def heap3c_def heap3s_def
      heapState_fields heap3_walk heap2_walk blockA_def blockF_def)

lemma memFree_heap3: "memFree heap3 (Some 132) = Returns heap3f"
proof -
  have e: "[0 \<mapsto> blockA, 116 \<mapsto> blockA, 232 \<mapsto> blockA](116 := Some (blockA\<lparr> inUse := False \<rparr>))
           = [0::nat \<mapsto> blockA, 116 \<mapsto> blockF, 232 \<mapsto> blockA]"
    by (auto simp: fun_eq_iff blockA_def blockF_def)
  show ?thesis
    using memFree_heapState[of "[0 \<mapsto> blockA, 116 \<mapsto> blockA, 232 \<mapsto> blockA]" 116 blockA 300 348]
    unfolding e by (simp add: heap3_def heap3f_def blockA_def)
qed

lemma memFree_heap3f: "memFree heap3f (Some 248) = Returns heap3ff"
proof -
  have e: "[0 \<mapsto> blockA, 116 \<mapsto> blockF, 232 \<mapsto> blockA](232 := Some (blockA\<lparr> inUse := False \<rparr>))
           = [0::nat \<mapsto> blockA, 116 \<mapsto> blockF, 232 \<mapsto> blockF]"
    by (auto simp: fun_eq_iff blockA_def blockF_def)
  show ?thesis
    using memFree_heapState[of "[0 \<mapsto> blockA, 116 \<mapsto> blockF, 232 \<mapsto> blockA]" 232 blockA 200 348]
    unfolding e by (simp add: heap3f_def heap3ff_def blockA_def)
qed

lemma memFree_heap3c: "memFree heap3c (Some 248) = Returns heap3s"
proof -
  have e: "[0 \<mapsto> blockA, 116 \<mapsto> blockA, 232 \<mapsto> blockA](232 := Some (blockA\<lparr> inUse := False \<rparr>))
           = [0::nat \<mapsto> blockA, 116 \<mapsto> blockA, 232 \<mapsto> blockF]"
    by (auto simp: fun_eq_iff blockA_def blockF_def)
  show ?thesis
    using memFree_heapState[of "[0 \<mapsto> blockA, 116 \<mapsto> blockA, 232 \<mapsto> blockA]" 232 blockA 200 232]
    unfolding e by (simp add: heap3c_def heap3s_def blockA_def)
qed

lemma compactMemory_heapState:
  "compactLoop h u 0 0 = Some (Returns (h', w)) \<Longrightarrow>
   compactMemory (heapState h u c) = Some (Returns (heapState h' w c))"
  by (simp add: compactMemory_def heapState_def)

lemma compactLoop_step:
  assumes "readPos < used" "h readPos = Some b"
    "readPos + HEADER_SIZE + blockSize b \<le> KERNEL_HEAP_SIZE"
    "writePos \<le> readPos"
  shows "compactLoop h used readPos writePos =
           compactLoop (if inUse b \<and> writePos \<noteq> readPos
                        then memmoveBlock h writePos (HEADER_SIZE + blockSize b) b else h) used
             (readPos + HEADER_SIZE + blockSize b)
             (if inUse b then writePos + HEADER_SIZE + blockSize b else writePos)"
proof -
  have a: "sz_add HEADER_SIZE (blockSize b) = HEADER_SIZE + blockSize b"
    "sz_add readPos (HEADER_SIZE + blockSize b) = readPos + HEADER_SIZE + blockSize b"
    "sz_add writePos (HEADER_SIZE + blockSize b) = writePos + HEADER_SIZE + blockSize b"
    using assms by (simp_all add: sz_add_def)
  show ?thesis
    using assms by (subst compactLoop.simps) (simp add: Let_def a)
qed

lemma compactLoop_done:
  "\<not> readPos < used \<Longrightarrow> compactLoop h used readPos writePos = Some (Returns (h, writePos))"
  by (subst compactLoop.simps) simp

lemma memCompact_heap3f: "memCompact heap3f = Some (Returns heap3c)"
proof -
  let ?h = "[0 \<mapsto> blockA, 116 \<mapsto> blockF, 232 \<mapsto> blockA]"
  let ?h' = "[0 \<mapsto> blockA, 116 \<mapsto> blockA, 232 \<mapsto> blockA]"
  have e: "memmoveBlock ?h 116 116 blockA = ?h'"
    by (auto simp: memmoveBlock_def clobber_def fun_eq_iff)
  have "compactLoop ?h 348 0 0 = compactLoop ?h 348 116 116"
    using compactLoop_step[of 0 348 ?h blockA 0] by (simp add: blockA_def)
  also have "\<dots> = compactLoop ?h 348 232 116"
    using compactLoop_step[of 116 348 ?h blockF 116] by (simp add: blockF_def)
  also have "\<dots> = compactLoop ?h' 348 348 232"
    using compactLoop_step[of 232 348 ?h blockA 116] e by (simp add: blockA_def)
  also have "\<dots> = Some (Returns (?h', 232))"
    by (simp add: compactLoop_done)
  finally show ?thesis
    using compactMemory_heapState[of ?h 348 ?h' 232 200]
    by (simp add: memCompact_def heap3f_def heap3c_def)
qed

lemma memCompact_heap3ff:
  "memCompact heap3ff = Some (Returns heap3fc)"
proof -
  let ?h = "[0 \<mapsto> blockA, 116 \<mapsto> blockF, 232 \<mapsto> blockF]"
  have "compactLoop ?h 348 0 0 = compactLoop ?h 348 116 116"
    using compactLoop_step[of 0 348 ?h blockA 0] by (simp add: blockA_def)
  also have "\<dots> = compactLoop ?h 348 232 116"
    using compactLoop_step[of 116 348 ?h blockF 116] by (simp add: blockF_def)
  also have "\<dots> = compactLoop ?h 348 348 116"
    using compactLoop_step[of 232 348 ?h blockF 116] by (simp add: blockF_def)
  also have "\<dots> = Some (Returns (?h, 116))"
    by (simp add: compactLoop_done)
  finally show ?thesis
    using compactMemory_heapState[of ?h 348 ?h 116 100]
    by (simp add: memCompact_def heap3ff_def heap3fc_def)
qed


lemma placeBlock_heapState_wrap:
  "placeBlock (heapState h u c) sz tot 0 =
     (Some (u + HEADER_SIZE),
      heapState ((clobber h u (u + HEADER_SIZE + sz))
                   (u := Some \<lparr> blockSize = sz, ownerTaskId = 0, inUse = True, handleId = - 1 \<rparr>))
        (sz_add u tot) (sz_add c sz))"
  by (simp add: placeBlock_def heapState_def Let_def bootKernel_tasks idleTask_def)

subsection \<open>Allocation without overflow\<close>

text \<open>
  For a request of at most \<open>2 ^ 31\<close> bytes on a heap that is a chain of blocks within the
  capacity, no sum of \<^verbatim>\<open>allocateMemoryInternal\<close> wraps: the size is rounded up to the next
  multiple of 4, the block is placed at the watermark when it fits, and otherwise the heap
  is compacted (which returns) and the block is placed when it fits then, a null pointer
  returned when it does not.
\<close>

lemma memAlloc_rounds:
  assumes pos: "0 < size0" and small: "size0 \<le> 2 ^ 31"
    and blocks: "heapBlocks k = Some bs" and cap: "heapUsed k \<le> KERNEL_HEAP_SIZE"
  shows "\<exists>sz. sz mod 4 = 0 \<and> size0 \<le> sz \<and> sz < size0 + 4
         \<and> (if heapUsed k + HEADER_SIZE + sz \<le> KERNEL_HEAP_SIZE
             then memAlloc k size0 =
                    Some (Returns (placeBlock k sz (HEADER_SIZE + sz) (int (currentTaskId k))))
             else \<exists>k1. compactMemory k = Some (Returns k1)
                    \<and> heapBlocks k1 = Some (filter inUse bs)
                    \<and> heapUsed k1 + freeSpace bs = heapUsed k
                    \<and> memAlloc k size0 =
                        Some (Returns (if heapUsed k1 + HEADER_SIZE + sz \<le> KERNEL_HEAP_SIZE
                                       then placeBlock k1 sz (HEADER_SIZE + sz) (int (currentTaskId k))
                                       else (None, k1))))"
proof -
  let ?sz = "(size0 + 3) div 4 * 4"
  have r: "size0 \<le> ?sz" "?sz \<le> size0 + 3" "?sz mod 4 = 0" by simp_all
  have s1: "sz_add size0 3 = size0 + 3" using small by (simp add: sz_add_def)
  have s2: "sz_add HEADER_SIZE ?sz = HEADER_SIZE + ?sz" using small r(2) by (simp add: sz_add_def)
  have s3: "\<And>u. u \<le> KERNEL_HEAP_SIZE \<Longrightarrow> sz_add u (HEADER_SIZE + ?sz) = u + HEADER_SIZE + ?sz"
    using small r(2) by (simp add: sz_add_def)
  from compactMemory_blocks[OF blocks cap] obtain k1 where
    c: "compactMemory k = Some (Returns k1)" and b1: "heapBlocks k1 = Some (filter inUse bs)"
    and u1: "heapUsed k1 + freeSpace bs = heapUsed k" by blast
  have cap1: "heapUsed k1 \<le> KERNEL_HEAP_SIZE" using u1 cap by simp
  have m: "if heapUsed k + HEADER_SIZE + ?sz \<le> KERNEL_HEAP_SIZE
             then memAlloc k size0 =
                    Some (Returns (placeBlock k ?sz (HEADER_SIZE + ?sz) (int (currentTaskId k))))
             else \<exists>k1. compactMemory k = Some (Returns k1)
                    \<and> heapBlocks k1 = Some (filter inUse bs)
                    \<and> heapUsed k1 + freeSpace bs = heapUsed k
                    \<and> memAlloc k size0 =
                        Some (Returns (if heapUsed k1 + HEADER_SIZE + ?sz \<le> KERNEL_HEAP_SIZE
                                       then placeBlock k1 ?sz (HEADER_SIZE + ?sz) (int (currentTaskId k))
                                       else (None, k1)))"
  proof (cases "heapUsed k + HEADER_SIZE + ?sz \<le> KERNEL_HEAP_SIZE")
    case True
    then show ?thesis using pos
      by (simp add: memAlloc_def allocateMemoryInternal_def Let_def s1 s2 s3[OF cap])
  next
    case False
    have "memAlloc k size0 =
            Some (Returns (if heapUsed k1 + HEADER_SIZE + ?sz \<le> KERNEL_HEAP_SIZE
                           then placeBlock k1 ?sz (HEADER_SIZE + ?sz) (int (currentTaskId k))
                           else (None, k1)))"
      using pos False
      by (simp add: memAlloc_def allocateMemoryInternal_def Let_def s1 s2 s3[OF cap] s3[OF cap1] c)
    then show ?thesis using False c b1 u1 by simp
  qed
  have lt: "?sz < size0 + 4" using r(2) by simp
  show ?thesis
    by (rule exI[of _ ?sz], intro conjI) (rule r(3), rule r(1), rule lt, rule m)
qed

subsection \<open>C4: send/receive round trip and FIFO order\<close>

text \<open>The ring buffer implements the queue: a send appends, a receive takes the front.\<close>

lemma ring_distinct:
  fixes a i c n :: nat
  assumes "i < c" "c < n"
  shows "(a + i) mod n \<noteq> (a + c) mod n"
proof
  assume e: "(a + i) mod n = (a + c) mod n"
  have le: "a + i \<le> a + c" using assms by simp
  have "n dvd (a + c) - (a + i)"
    using mod_eq_dvd_iff_nat[OF le, of n] e by simp
  then have "n dvd c - i" by simp
  moreover have "0 < c - i" "c - i < n" using assms by auto
  ultimately show False by (auto dest: dvd_imp_le)
qed

lemma pending_enqueue:
  assumes "wf_queue q" "count q < 16"
  shows "pending (q\<lparr> messages := (messages q)[tail q := m], tail := tl', count := count q + 1 \<rparr>)
         = pending q @ [m]"
proof -
  from assms have len: "length (messages q) = 16" and c0: "0 \<le> count q"
    and t: "tail q = (head q + nat (count q)) mod 16"
    by (auto simp: wf_queue_def)
  have n: "nat (count q + 1) = Suc (nat (count q))" using c0 by simp
  have c16: "nat (count q) < 16" using assms(2) c0 by simp
  have neq: "(head q + i) mod 16 \<noteq> (head q + nat (count q)) mod 16" if "i < nat (count q)" for i
    using ring_distinct[OF that c16] .
  show ?thesis
    unfolding pending_def
    by (simp add: n len t neq neq[THEN not_sym] nth_list_update)
qed

lemma pending_dequeue:
  assumes "wf_queue q" "count q \<noteq> 0"
  shows "pending (q\<lparr> messages := (messages q)[head q := m],
                     head := (head q + 1) mod 16, count := count q - 1 \<rparr>)
         = tl (pending q)"
    and "pending q \<noteq> []" and "hd (pending q) = messages q ! head q"
proof -
  from assms have len: "length (messages q) = 16" and c0: "0 < count q" and c16: "count q \<le> 16"
    and h: "head q < 16"
    by (auto simp: wf_queue_def)
  obtain c where c: "nat (count q) = Suc c" using c0 by (cases "nat (count q)") auto
  have c': "nat (count q - 1) = c" using c c0 by simp
  have cb: "Suc c \<le> 16" using c c16 by simp
  have neq: "(head q + Suc i) mod 16 \<noteq> head q" if "i < c" for i
  proof -
    have "(head q + 0) mod 16 \<noteq> (head q + Suc i) mod 16"
      by (rule ring_distinct) (use that cb in auto)
    then show ?thesis using h by simp
  qed
  have shift: "(Suc (head q) mod 16 + i) mod 16 = Suc (head q + i) mod 16" for i
    by (metis add_Suc mod_add_left_eq)
  have neq': "Suc (head q + i) mod 16 \<noteq> head q" if "i < c" for i
    using neq[OF that] by simp
  show "pending (q\<lparr> messages := (messages q)[head q := m],
                     head := (head q + 1) mod 16, count := count q - 1 \<rparr>)
         = tl (pending q)"
    unfolding pending_def
    by (simp add: c c' shift neq' neq'[THEN not_sym] nth_list_update upt_conv_Cons map_Suc_upt[symmetric] del: upt_Suc)
  show "pending q \<noteq> []" unfolding pending_def by (simp add: c)
  show "hd (pending q) = messages q ! head q"
    unfolding pending_def using h by (simp add: c upt_conv_Cons del: upt_Suc)
qed

lemma int_of_size_small: "n < 2 ^ 31 \<Longrightarrow> int_of_size n = int n"
  by (simp add: int_of_size_def)

lemma ipcSend_enqueues:
  assumes wf: "wf_queue (messageQueues k ! t)"
    and t: "t < length (messageQueues k)"
    and src: "n \<le> length src"
    and send: "ipcSend k (int t) (Some src) n now = (SYS_OK, k1)"
  shows "mailbox (messageQueues k1 ! t) =
           mailbox (messageQueues k ! t) @ [(int (currentTaskId k), take n src)]"
    and "wf_queue (messageQueues k1 ! t)"
    and "length (messageQueues k1) = length (messageQueues k)"
proof -
  let ?q = "messageQueues k ! t"
  let ?old = "messages ?q ! tail ?q"
  let ?m = "?old\<lparr> fromTaskId := int (currentTaskId k), toTaskId := int t, msgLength := n,
                 msgData := (if n > 0 then memcpy (msgData ?old) src n else msgData ?old),
                 timestamp := now, valid := True \<rparr>"
  let ?q' = "?q\<lparr> messages := (messages ?q)[tail ?q := ?m],
                 tail := (tail ?q + 1) mod 16, count := count ?q + 1 \<rparr>"
  from send have n64: "n \<le> 64" and c: "count ?q < 16"
    and k1: "k1 = k\<lparr> messageQueues := (messageQueues k)[t := ?q'] \<rparr>"
    by (auto simp: ipcSend_def Let_def split: if_splits)
  have q1: "messageQueues k1 ! t = ?q'" using k1 t by simp
  from wf have len: "length (messages ?q) = 16" and c0: "0 \<le> count ?q"
    and tl: "tail ?q = (head ?q + nat (count ?q)) mod 16"
    and dl: "\<forall>m \<in> set (messages ?q). length (msgData m) = 64"
    and pv: "\<forall>m \<in> set (pending ?q). valid m \<and> msgLength m \<le> 64"
    and h: "head ?q < 16"
    by (auto simp: wf_queue_def)
  have tlt: "tail ?q < 16" using tl by simp
  have old: "length (msgData ?old) = 64" using dl len tlt by (simp add: nth_mem)
  have pend: "pending ?q' = pending ?q @ [?m]" by (rule pending_enqueue[OF wf c])
  have pay: "payload ?m = take n src" using src by (simp add: payload_def memcpy_def)
  have mlen: "length (msgData ?m) = 64" using src n64 old by (simp add: memcpy_def)
  show "mailbox (messageQueues k1 ! t) =
           mailbox (messageQueues k ! t) @ [(int (currentTaskId k), take n src)]"
    unfolding q1 mailbox_def pend using pay by simp
  have "nat (count ?q + 1) = Suc (nat (count ?q))" using c0 by simp
  then have tl': "tail ?q' = (head ?q' + nat (count ?q')) mod 16"
    using tl by (simp add: mod_Suc_eq)
  have dl': "\<forall>m \<in> set (messages ?q'). length (msgData m) = 64"
    using dl mlen by (auto dest!: set_update_subset_insert[THEN subsetD])
  have pv': "\<forall>m \<in> set (pending ?q'). valid m \<and> msgLength m \<le> 64"
    unfolding pend using pv n64 by simp
  show "wf_queue (messageQueues k1 ! t)"
    unfolding q1 wf_queue_def using len h c0 c tl' dl' pv' by simp
  show "length (messageQueues k1) = length (messageQueues k)" using k1 by simp
qed

lemma ipcReceive_front:
  assumes wf: "wf_queue (messageQueues k ! currentTaskId k)"
    and t: "currentTaskId k < length (messageQueues k)"
    and mb: "mailbox (messageQueues k ! currentTaskId k) = (f, p) # rest"
    and mx: "length p \<le> mx"
  shows "\<exists>k'. ipcReceive k (Some b) mx (Some old) =
              (int (length p), k', Some (p @ drop (length p) b), Some f)
            \<and> currentTaskId k' = currentTaskId k
            \<and> length (messageQueues k') = length (messageQueues k)
            \<and> wf_queue (messageQueues k' ! currentTaskId k)
            \<and> mailbox (messageQueues k' ! currentTaskId k) = rest"
proof -
  let ?q = "messageQueues k ! currentTaskId k"
  let ?m = "messages ?q ! head ?q"
  let ?q' = "?q\<lparr> messages := (messages ?q)[head ?q := ?m\<lparr> valid := False \<rparr>],
                head := (head ?q + 1) mod 16, count := count ?q - 1 \<rparr>"
  let ?k' = "k\<lparr> messageQueues := (messageQueues k)[currentTaskId k := ?q'] \<rparr>"
  from wf have len: "length (messages ?q) = 16" and c0: "0 \<le> count ?q" and c16: "count ?q \<le> 16"
    and tl: "tail ?q = (head ?q + nat (count ?q)) mod 16"
    and dl: "\<forall>m \<in> set (messages ?q). length (msgData m) = 64"
    and pv: "\<forall>m \<in> set (pending ?q). valid m \<and> msgLength m \<le> 64"
    and h: "head ?q < 16"
    by (auto simp: wf_queue_def)
  have cne: "count ?q \<noteq> 0" using mb by (auto simp: mailbox_def pending_def)
  note dq = pending_dequeue[OF wf cne]
  have hdm: "hd (pending ?q) = ?m" by (rule dq(3))
  have mem: "?m \<in> set (pending ?q)" using dq(2) hdm by (metis hd_in_set)
  have v: "valid ?m" and l64: "msgLength ?m \<le> 64" using pv mem by auto
  have dlen: "length (msgData ?m) = 64" using dl len h by (simp add: nth_mem)
  have fp: "(f, p) = (fromTaskId ?m, payload ?m)"
    using mb dq(2) hdm by (cases "pending ?q") (auto simp: mailbox_def)
  have plen: "length p = msgLength ?m" using fp l64 dlen by (simp add: payload_def)
  have buf: "(if msgLength ?m > 0 then memcpy b (msgData ?m) (msgLength ?m) else b)
               = p @ drop (length p) b"
    using fp plen by (auto simp: memcpy_def payload_def)
  have ret: "int_of_size (msgLength ?m) = int (length p)"
    using plen l64 by (simp add: int_of_size_small)
  have mx': "\<not> msgLength ?m > mx" using mx plen by simp
  have "ipcReceive k (Some b) mx (Some old) =
          (int_of_size (msgLength ?m), ?k',
           Some (if msgLength ?m > 0 then memcpy b (msgData ?m) (msgLength ?m) else b),
           Some (fromTaskId ?m))"
    using cne v mx' by (simp add: ipcReceive_def Let_def)
  also have "\<dots> = (int (length p), ?k', Some (p @ drop (length p) b), Some f)"
    unfolding buf ret using fp by simp
  finally have rc: "ipcReceive k (Some b) mx (Some old) =
              (int (length p), ?k', Some (p @ drop (length p) b), Some f)" .
  have q1: "messageQueues ?k' ! currentTaskId k = ?q'" using t by simp
  have pend: "pending ?q' = tl (pending ?q)" by (rule dq(1))
  have rest: "mailbox ?q' = rest"
    using mb unfolding mailbox_def pend by (cases "pending ?q") auto
  have c1: "nat (count ?q) = Suc (nat (count ?q - 1))" using cne c0 by simp
  have tl': "tail ?q' = (head ?q' + nat (count ?q')) mod 16"
    using tl by (simp add: c1 mod_add_left_eq)
  have dl': "\<forall>m \<in> set (messages ?q'). length (msgData m) = 64"
    using dl dlen by (auto dest!: set_update_subset_insert[THEN subsetD])
  have pv': "\<forall>m \<in> set (pending ?q'). valid m \<and> msgLength m \<le> 64"
    unfolding pend using pv dq(2) by (auto dest: list.set_sel(2))
  have wf': "wf_queue ?q'"
    unfolding wf_queue_def using len c0 c16 cne tl' dl' pv' by simp
  show ?thesis
    using rc q1 wf' rest by (intro exI[of _ ?k']) simp
qed

lemma mailbox_payload_le:
  assumes "wf_queue q" "(f, p) \<in> set (mailbox q)"
  shows "length p \<le> 64"
  using assms by (auto simp: wf_queue_def mailbox_def payload_def)

lemma receiveN_mailbox:
  assumes "wf_queue (messageQueues k ! currentTaskId k)"
    and "currentTaskId k < length (messageQueues k)"
    and "mailbox (messageQueues k ! currentTaskId k) = ms"
  shows "fst (receiveN (length ms) k) = map received ms"
  using assms
proof (induction ms arbitrary: k)
  case Nil
  then show ?case by simp
next
  case (Cons m ms)
  obtain f p where m: "m = (f, p)" by (cases m)
  have le: "length p \<le> 64"
    using mailbox_payload_le[OF Cons.prems(1), of f p] Cons.prems(3) m by simp
  from ipcReceive_front[OF Cons.prems(1,2) Cons.prems(3)[unfolded m] le,
      of "replicate 64 0" 0]
  obtain k' where rc: "ipcReceive k (Some (replicate 64 0)) 64 (Some 0) =
              (int (length p), k', Some (p @ drop (length p) (replicate 64 0)), Some f)"
    and cur: "currentTaskId k' = currentTaskId k"
    and len: "length (messageQueues k') = length (messageQueues k)"
    and wf': "wf_queue (messageQueues k' ! currentTaskId k)"
    and mb': "mailbox (messageQueues k' ! currentTaskId k) = ms"
    by blast
  have ih: "fst (receiveN (length ms) k') = map received ms"
    using Cons.IH[of k'] wf' mb' cur len Cons.prems(2) by simp
  show ?case
    using rc ih by (cases "receiveN (length ms) k'") (simp add: m received_def)
qed

text \<open>
  C4. Let the mailbox of task \<open>t\<close> be well formed and hold the messages \<open>ms\<close>, and let
  \<^verbatim>\<open>ipcSend(t, src, n)\<close> succeed (so \<open>t\<close> is a live slot, \<open>n \<le> 64\<close> and the mailbox was
  not full). Then, in any state with these mailboxes in which \<open>t\<close> is the current task,
  \<open>length ms + 1\<close> calls of \<^verbatim>\<open>ipcReceive\<close> return the messages of \<open>ms\<close> in their order
  and then the message just sent: the return value is \<open>n\<close>, the buffer starts with
  exactly the \<open>n\<close> bytes sent (the rest of the buffer is untouched), and the sender cell
  holds the sending task's id. Messages are received in the order they were sent.
\<close>

theorem ipc_roundtrip_fifo:
  assumes wf: "wf_queue (messageQueues k ! t)"
    and t: "t < length (messageQueues k)"
    and src: "n \<le> length src"
    and send: "ipcSend k (int t) (Some src) n now = (SYS_OK, ks)"
    and kr: "messageQueues kr = messageQueues ks" "currentTaskId kr = t"
  shows "fst (receiveN (length (mailbox (messageQueues k ! t)) + 1) kr) =
           map received (mailbox (messageQueues k ! t)) @
           [(int n, Some (take n src @ replicate (MESSAGE_DATA_SIZE - n) 0),
             Some (int (currentTaskId k)))]"
proof -
  note s = ipcSend_enqueues[OF wf t src send]
  have "fst (receiveN (length (mailbox (messageQueues k ! t) @ [(int (currentTaskId k), take n src)])) kr)
          = map received (mailbox (messageQueues k ! t) @ [(int (currentTaskId k), take n src)])"
    by (rule receiveN_mailbox) (use s kr t in simp_all)
  then show ?thesis using src by (simp add: received_def)
qed

lemma wf_zeroQueue: "wf_queue zeroQueue" "mailbox zeroQueue = []"
  by (simp_all add: wf_queue_def zeroQueue_def zeroMessage_def pending_def mailbox_def)

theorem ipc_roundtrip_fifo_witness:
  "wf_queue (messageQueues bootKernel ! 0) \<and> 0 < length (messageQueues bootKernel)
   \<and> fst (ipcSend bootKernel 0 (Some [1, 2, 3]) 2 5) = SYS_OK
   \<and> fst (receiveN 1 (snd (ipcSend bootKernel 0 (Some [1, 2, 3]) 2 5)))
       = [(2, Some ([1, 2] @ replicate 62 0), Some 0)]"
proof -
  let ?k1 = "snd (ipcSend bootKernel 0 (Some [1, 2, 3]) 2 5)"
  have ok: "fst (ipcSend bootKernel 0 (Some [1, 2, 3]) 2 5) = SYS_OK"
    by (simp add: ipcSend_def bootKernel_queues zeroQueue_def Let_def)
  then have send: "ipcSend bootKernel (int 0) (Some [1, 2, 3]) 2 5 = (SYS_OK, ?k1)"
    by (simp add: prod_eq_iff)
  have wf: "wf_queue (messageQueues bootKernel ! 0)"
    by (simp add: bootKernel_queues wf_zeroQueue)
  have mb: "mailbox (messageQueues bootKernel ! 0) = []"
    by (simp add: bootKernel_queues wf_zeroQueue)
  have cur: "currentTaskId ?k1 = 0"
    by (simp add: ipcSend_def bootKernel_queues zeroQueue_def Let_def)
  have "fst (receiveN (length (mailbox (messageQueues bootKernel ! 0)) + 1) ?k1) =
           map received (mailbox (messageQueues bootKernel ! 0)) @
           [(int 2, Some (take 2 [1, 2, 3] @ replicate (MESSAGE_DATA_SIZE - 2) 0),
             Some (int (currentTaskId bootKernel)))]"
    by (rule ipc_roundtrip_fifo[OF wf _ _ send refl cur]) (simp_all add: bootKernel_queues)
  then have "fst (receiveN 1 ?k1) = [(2, Some ([1, 2] @ replicate 62 0), Some 0)]"
    unfolding mb by (simp add: bootKernel_queues del: receiveN.simps)
  then show ?thesis
    using wf ok by (simp add: bootKernel_queues del: receiveN.simps)
qed

subsection \<open>C5: the error returns of \<^verbatim>\<open>ipcReceive\<close>\<close>

text \<open>
  C5. \<^verbatim>\<open>ipcReceive\<close> makes its checks in this order on the current task's mailbox: an
  empty mailbox (\<open>count = 0\<close>) gives \<open>SYS_ERR_WOULD_BLOCK\<close>; otherwise an entry at
  \<open>head\<close> with \<open>valid = false\<close> gives \<open>SYS_ERR_IO_ERROR\<close>; otherwise a stored length
  above the caller's maximum gives \<open>SYS_ERR_INVALID_PARAM\<close>. In each of the three cases
  the whole kernel state, hence the mailbox with its head, tail, count and entries, and
  the caller's buffer and sender cell are returned as they were: the message stays in
  the mailbox.
\<close>

theorem ipcReceive_error_cases:
  fixes k :: Kernel
  defines "q \<equiv> messageQueues k ! currentTaskId k"
  defines "m \<equiv> messages q ! head q"
  shows "(count q = 0 \<longrightarrow>
            ipcReceive k buffer maxLength fromPtr = (SYS_ERR_WOULD_BLOCK, k, buffer, fromPtr))
       \<and> (count q \<noteq> 0 \<and> \<not> valid m \<longrightarrow>
            ipcReceive k buffer maxLength fromPtr = (SYS_ERR_IO_ERROR, k, buffer, fromPtr))
       \<and> (count q \<noteq> 0 \<and> valid m \<and> msgLength m > maxLength \<longrightarrow>
            ipcReceive k buffer maxLength fromPtr = (SYS_ERR_INVALID_PARAM, k, buffer, fromPtr))"
  by (simp add: ipcReceive_def q_def m_def Let_def)

text \<open>
  The three cases at concrete states: the mailbox of the idle task right after boot
  (empty); the same mailbox with its count set to 1 while the entry at \<open>head\<close> is not
  valid; and the mailbox after a send of three bytes, read with \<^verbatim>\<open>maxLength = 2\<close>.
\<close>

theorem ipcReceive_error_cases_witness:
  "ipcReceive bootKernel None 0 None = (SYS_ERR_WOULD_BLOCK, bootKernel, None, None)
   \<and> ipcReceive (bootKernel\<lparr> messageQueues := [zeroQueue\<lparr> count := 1 \<rparr>] \<rparr>) None 0 None
       = (SYS_ERR_IO_ERROR, bootKernel\<lparr> messageQueues := [zeroQueue\<lparr> count := 1 \<rparr>] \<rparr>, None, None)
   \<and> ipcReceive (snd (ipcSend bootKernel 0 (Some [1, 2, 3]) 3 5)) (Some [7, 7]) 2 (Some 9)
       = (SYS_ERR_INVALID_PARAM, snd (ipcSend bootKernel 0 (Some [1, 2, 3]) 3 5), Some [7, 7], Some 9)"
proof -
  let ?kb = "bootKernel\<lparr> messageQueues := [zeroQueue\<lparr> count := 1 \<rparr>] \<rparr>"
  let ?ks = "snd (ipcSend bootKernel 0 (Some [1, 2, 3]) 3 5)"
  have a: "count (messageQueues bootKernel ! currentTaskId bootKernel) = 0"
    by (simp add: bootKernel_queues zeroQueue_def)
  have b: "count (messageQueues ?kb ! currentTaskId ?kb) \<noteq> 0
           \<and> \<not> valid (messages (messageQueues ?kb ! currentTaskId ?kb)
                          ! head (messageQueues ?kb ! currentTaskId ?kb))"
    by (simp add: bootKernel_queues zeroQueue_def zeroMessage_def)
  have c: "count (messageQueues ?ks ! currentTaskId ?ks) \<noteq> 0
           \<and> valid (messages (messageQueues ?ks ! currentTaskId ?ks)
                        ! head (messageQueues ?ks ! currentTaskId ?ks))
           \<and> msgLength (messages (messageQueues ?ks ! currentTaskId ?ks)
                        ! head (messageQueues ?ks ! currentTaskId ?ks)) > 2"
    by (simp add: ipcSend_def bootKernel_queues zeroQueue_def zeroMessage_def Let_def)
  show ?thesis
    using ipcReceive_error_cases[of bootKernel None 0 None] a
      ipcReceive_error_cases[of ?kb None 0 None] b
      ipcReceive_error_cases[of ?ks "Some [7, 7]" 2 "Some 9"] c
    by blast
qed

subsection \<open>C7: semaphore bounds\<close>

lemma sem_bounds_update:
  assumes "sem_bounds k" "semInUse s \<longrightarrow> 0 \<le> semValue s \<and> semValue s \<le> maxValue s"
  shows "sem_bounds (k\<lparr> semaphores := (semaphores k)[i := s] \<rparr>)"
  using assms unfolding sem_bounds_def
  by (auto dest!: set_update_subset_insert[THEN subsetD])

lemma sem_bounds_nth:
  assumes "sem_bounds k" "i < length (semaphores k)" "semInUse (semaphores k ! i)"
  shows "0 \<le> semValue (semaphores k ! i)" "semValue (semaphores k ! i) \<le> maxValue (semaphores k ! i)"
  using assms unfolding sem_bounds_def by (auto dest: nth_mem)

lemma yield_semaphores: "semaphores (yield k now) = semaphores k"
  by (simp add: yield_def)

lemma sem_bounds_yield: "sem_bounds (yield k now) = sem_bounds k"
  by (simp add: sem_bounds_def yield_semaphores)

lemma semWaitLoop_bounds:
  assumes "sem_bounds k" "semWaitLoop k i t s clock = Some (r, k')"
  shows "sem_bounds k'"
  using assms
proof (induction k i t s clock rule: semWaitLoop.induct)
  case (1 k semId timeoutMs startTime clock)
  let ?sem = "semaphores k ! semId"
  show ?case
  proof (cases "semValue ?sem \<le> 0")
    case False
    then have k': "k' = k\<lparr> semaphores := (semaphores k)[semId := ?sem\<lparr> semValue := semValue ?sem - 1 \<rparr>] \<rparr>"
      using "1.prems"(2) by (simp add: Let_def semWaitLoop.simps[of k])
    show ?thesis unfolding k'
    proof (cases "semId < length (semaphores k)")
      case True
      show "sem_bounds (k\<lparr> semaphores := (semaphores k)[semId := ?sem\<lparr> semValue := semValue ?sem - 1 \<rparr>] \<rparr>)"
        by (rule sem_bounds_update[OF "1.prems"(1)])
           (use False sem_bounds_nth[OF "1.prems"(1) True] in auto)
    next
      case False
      then show "sem_bounds (k\<lparr> semaphores := (semaphores k)[semId := ?sem\<lparr> semValue := semValue ?sem - 1 \<rparr>] \<rparr>)"
        using "1.prems"(1) by (simp add: sem_bounds_def list_update_beyond)
    qed
  next
    case True
    show ?thesis
    proof (cases "timeoutMs > 0")
      case t: True
      show ?thesis
      proof (cases clock)
        case Nil
        then show ?thesis using "1.prems"(2) True t by (simp add: Let_def semWaitLoop.simps[of k])
      next
        case (Cons now rest)
        show ?thesis
        proof (cases "now - startTime \<ge> timeoutMs")
          case True
          then show ?thesis using "1.prems" \<open>semValue ?sem \<le> 0\<close> t Cons by (simp add: Let_def semWaitLoop.simps[of k])
        next
          case ne: False
          show ?thesis
          proof (cases rest)
            case Nil
            then show ?thesis using "1.prems"(2) True t Cons ne by (simp add: Let_def semWaitLoop.simps[of k])
          next
            case c2: (Cons y rest')
            have "semWaitLoop (yield k y) semId timeoutMs startTime rest' = Some (r, k')"
              using "1.prems"(2) True t Cons ne c2 by (simp add: Let_def semWaitLoop.simps[of k])
            from "1.IH"(1)[OF refl True t Cons ne c2 _ this] "1.prems"(1)
            show ?thesis by (simp add: sem_bounds_yield)
          qed
        qed
      qed
    next
      case t: False
      show ?thesis
      proof (cases clock)
        case Nil
        then show ?thesis using "1.prems"(2) True t by (simp add: Let_def semWaitLoop.simps[of k])
      next
        case (Cons y rest)
        have "semWaitLoop (yield k y) semId timeoutMs startTime rest = Some (r, k')"
          using "1.prems"(2) True t Cons by (simp add: Let_def semWaitLoop.simps[of k])
        from "1.IH"(2)[OF refl True t Cons _ this] "1.prems"(1)
        show ?thesis by (simp add: sem_bounds_yield)
      qed
    qed
  qed
qed


lemma sem_bounds_keep:
  assumes "sem_bounds k"
    and "i < length (semaphores k) \<Longrightarrow> semInUse (semaphores k ! i) \<Longrightarrow>
           0 \<le> v \<and> v \<le> maxValue (semaphores k ! i)"
  shows "sem_bounds (k\<lparr> semaphores := (semaphores k)[i :=
            (semaphores k ! i)\<lparr> semValue := v \<rparr>] \<rparr>)"
proof (cases "i < length (semaphores k)")
  case True
  show ?thesis by (rule sem_bounds_update[OF assms(1)]) (use assms(2) True in auto)
next
  case False
  then show ?thesis using assms(1) by (simp add: sem_bounds_def list_update_beyond)
qed

lemma semWaitLoop_spins:
  "semValue (semaphores k ! i) \<le> 0 \<Longrightarrow> semWaitLoop k i 0 s clock = None"
proof (induction clock arbitrary: k)
  case Nil
  then show ?case by (simp add: semWaitLoop.simps[of k])
next
  case (Cons y rest)
  have "semWaitLoop (yield k y) i 0 s rest = None"
    by (rule Cons.IH) (use Cons.prems in \<open>simp add: yield_semaphores\<close>)
  then show ?case using Cons.prems by (simp add: semWaitLoop.simps[of k])
qed

text \<open>
  C7. The bounds \<open>0 \<le> value \<le> maxValue\<close> of every semaphore in use are kept by
  \<^verbatim>\<open>semCreate\<close>, \<^verbatim>\<open>semPost\<close> and \<^verbatim>\<open>semDestroy\<close>, and by \<^verbatim>\<open>semWait\<close> whenever it returns.
  On a semaphore in use, \<^verbatim>\<open>semPost\<close> returns \<open>SYS_ERR_INVALID_PARAM\<close> and changes nothing
  when the value equals the maximum, and otherwise adds one to the value and changes
  nothing else; \<^verbatim>\<open>semWait\<close> on a positive value returns at once with the value
  decremented.
\<close>

theorem semaphore_bounds:
  assumes inv: "sem_bounds k"
  shows "sem_bounds (snd (semCreate k initialValue maxVal name))
     \<and> sem_bounds (snd (semPost k semId))
     \<and> sem_bounds (snd (semDestroy k semId))
     \<and> (\<forall>r k'. semWait k semId timeoutMs clock = Some (r, k') \<longrightarrow> sem_bounds k')
     \<and> (0 \<le> semId \<and> semId < int MAX_SEMAPHORES \<and> semInUse (semaphores k ! nat semId) \<longrightarrow>
          (semValue (semaphores k ! nat semId) = maxValue (semaphores k ! nat semId) \<longrightarrow>
             semPost k semId = (SYS_ERR_INVALID_PARAM, k))
        \<and> (semValue (semaphores k ! nat semId) < maxValue (semaphores k ! nat semId) \<longrightarrow>
             semPost k semId = (SYS_OK, k\<lparr> semaphores := (semaphores k)[nat semId :=
               (semaphores k ! nat semId)\<lparr> semValue := semValue (semaphores k ! nat semId) + 1 \<rparr>] \<rparr>))
        \<and> (semValue (semaphores k ! nat semId) > 0 \<longrightarrow>
             (\<forall>t0 rest. semWait k semId timeoutMs (t0 # rest) =
                Some (SYS_OK, k\<lparr> semaphores := (semaphores k)[nat semId :=
                  (semaphores k ! nat semId)\<lparr> semValue := semValue (semaphores k ! nat semId) - 1 \<rparr>] \<rparr>))))"
proof (intro conjI allI impI)
  show "sem_bounds (snd (semCreate k initialValue maxVal name))"
    by (auto simp: semCreate_def Let_def intro!: sem_bounds_update[OF inv] inv)
  show "sem_bounds (snd (semPost k semId))"
    by (auto simp: semPost_def Let_def intro!: sem_bounds_keep[OF inv] inv
          dest: sem_bounds_nth(1)[OF inv])
  show "sem_bounds (snd (semDestroy k semId))"
    by (auto simp: semDestroy_def Let_def intro!: sem_bounds_update[OF inv] inv)
  show "sem_bounds k'" if "semWait k semId timeoutMs clock = Some (r, k')" for r k'
    using that inv
    by (auto simp: semWait_def split: if_splits list.splits dest: semWaitLoop_bounds[OF inv])
next
  assume a: "0 \<le> semId \<and> semId < int MAX_SEMAPHORES \<and> semInUse (semaphores k ! nat semId)"
  show "semPost k semId = (SYS_ERR_INVALID_PARAM, k)"
    if "semValue (semaphores k ! nat semId) = maxValue (semaphores k ! nat semId)"
    using a that by (simp add: semPost_def)
  show "semPost k semId = (SYS_OK, k\<lparr> semaphores := (semaphores k)[nat semId :=
               (semaphores k ! nat semId)\<lparr> semValue := semValue (semaphores k ! nat semId) + 1 \<rparr>] \<rparr>)"
    if "semValue (semaphores k ! nat semId) < maxValue (semaphores k ! nat semId)"
    using a that by (simp add: semPost_def Let_def)
  show "semWait k semId timeoutMs (t0 # rest) =
                Some (SYS_OK, k\<lparr> semaphores := (semaphores k)[nat semId :=
                  (semaphores k ! nat semId)\<lparr> semValue := semValue (semaphores k ! nat semId) - 1 \<rparr>] \<rparr>)"
    if "semValue (semaphores k ! nat semId) > 0" for t0 rest
    using a that by (simp add: semWait_def Let_def semWaitLoop.simps[of k])
qed

text \<open>
  The theorem at the boot state (create), at \<open>semKernel\<close> (value 1 of 2: post and wait
  succeed) and at \<open>postedKernel\<close> (value 2 of 2: post is refused).
\<close>

theorem semaphore_bounds_witness:
  "sem_bounds bootKernel \<and> sem_bounds semKernel \<and> sem_bounds postedKernel
   \<and> semInUse (semaphores semKernel ! 0)
   \<and> semValue (semaphores semKernel ! 0) = 1 \<and> maxValue (semaphores semKernel ! 0) = 2
   \<and> fst (semPost semKernel 0) = SYS_OK
   \<and> semValue (semaphores postedKernel ! 0) = 2
   \<and> semPost postedKernel 0 = (SYS_ERR_INVALID_PARAM, postedKernel)
   \<and> map_option fst (semWait semKernel 0 0 [7]) = Some SYS_OK
   \<and> semValue (semaphores (snd (the (semWait semKernel 0 0 [7]))) ! 0) = 0"
proof -
  have b0: "sem_bounds bootKernel"
    by (simp add: sem_bounds_def bootKernel_semaphores zeroSemaphore_def)
  have b1: "sem_bounds semKernel"
    using semaphore_bounds[OF b0, of 1 2 "''lock''" 0 0 "[]"] by (simp add: semKernel_def)
  have b2: "sem_bounds postedKernel"
    using semaphore_bounds[OF b1, of 1 2 "''lock''" 0 0 "[]"] by (simp add: postedKernel_def)
  have f: "semInUse (semaphores semKernel ! 0)" "semValue (semaphores semKernel ! 0) = 1"
    "maxValue (semaphores semKernel ! 0) = 2" "semValue (semaphores postedKernel ! 0) = 2"
    "semInUse (semaphores postedKernel ! 0)" "maxValue (semaphores postedKernel ! 0) = 2"
    by (simp_all add: semKernel_eq postedKernel_eq)
  have p1: "fst (semPost semKernel 0) = SYS_OK"
    using semaphore_bounds[OF b1, of 1 2 "''lock''" 0 0 "[]"] f by simp
  have p2: "semPost postedKernel 0 = (SYS_ERR_INVALID_PARAM, postedKernel)"
    using semaphore_bounds[OF b2, of 1 2 "''lock''" 0 0 "[]"] f by simp
  have w: "semWait semKernel 0 0 [7] = Some (SYS_OK, semKernel\<lparr> semaphores := (semaphores semKernel)[nat 0 :=
                  (semaphores semKernel ! nat 0)\<lparr> semValue := semValue (semaphores semKernel ! nat 0) - 1 \<rparr>] \<rparr>)"
    using semaphore_bounds[OF b1, of 1 2 "''lock''" 0 0 "[]"] f by simp
  show ?thesis using b0 b1 b2 f p1 p2 unfolding w by (simp add: semKernel_eq)
qed

subsection \<open>C8: the watchdog check\<close>

lemma watchdogTask_eq:
  "watchdogTask now t =
     (if state t \<noteq> TASK_EMPTY \<and> state t \<noteq> TASK_SLEEPING \<and> now - lastYield t > WATCHDOG_TIMEOUT_MS
      then t\<lparr> state := (if state t = TASK_RUNNING then TASK_READY else state t), lastYield := now \<rparr>
      else t)"
  by (simp add: watchdogTask_def Let_def)

lemma watchdogTask_empty: "state (watchdogTask now t) = TASK_EMPTY \<Longrightarrow> state t = TASK_EMPTY"
  by (simp add: watchdogTask_eq split: if_splits)

text \<open>
  C8. The watchdog check changes nothing when the watchdog is disabled or when fewer than
  1000 ms (in 32-bit clock arithmetic) have passed since \<open>watchdogLastCheck\<close>. When it
  runs it records the time of the check and changes nothing else but the task table:
  every slot that is neither empty nor sleeping and whose \<open>now - lastYield\<close> exceeds
  5000 ms gets \<open>lastYield = now\<close> and goes from running to ready (any other state is
  kept); every other slot is unchanged. No slot becomes empty by the check.
\<close>

theorem checkWatchdog_spec:
  "(\<not> watchdogEnabled k \<or> now - watchdogLastCheck k < 1000 \<longrightarrow> checkWatchdog k now = k)
   \<and> (watchdogEnabled k \<and> \<not> now - watchdogLastCheck k < 1000 \<longrightarrow>
        checkWatchdog k now = k\<lparr> watchdogLastCheck := now, tasks := tasks (checkWatchdog k now) \<rparr>
        \<and> length (tasks (checkWatchdog k now)) = length (tasks k)
        \<and> (\<forall>i < length (tasks k).
              tasks (checkWatchdog k now) ! i =
                (if state (tasks k ! i) \<noteq> TASK_EMPTY \<and> state (tasks k ! i) \<noteq> TASK_SLEEPING
                    \<and> now - lastYield (tasks k ! i) > WATCHDOG_TIMEOUT_MS
                 then (tasks k ! i)\<lparr> state := (if state (tasks k ! i) = TASK_RUNNING then TASK_READY
                                                else state (tasks k ! i)),
                                      lastYield := now \<rparr>
                 else tasks k ! i)))
   \<and> (\<forall>i < length (tasks k).
         state (tasks (checkWatchdog k now) ! i) = TASK_EMPTY \<longrightarrow> state (tasks k ! i) = TASK_EMPTY)"
proof (intro conjI impI allI)
  assume "\<not> watchdogEnabled k \<or> now - watchdogLastCheck k < 1000"
  then show "checkWatchdog k now = k" by (auto simp: checkWatchdog_def)
next
  assume a: "watchdogEnabled k \<and> \<not> now - watchdogLastCheck k < 1000"
  then have e: "checkWatchdog k now = k\<lparr> watchdogLastCheck := now, tasks := map (watchdogTask now) (tasks k) \<rparr>"
    by (simp add: checkWatchdog_def)
  show "checkWatchdog k now = k\<lparr> watchdogLastCheck := now, tasks := tasks (checkWatchdog k now) \<rparr>"
    unfolding e by simp
  show "length (tasks (checkWatchdog k now)) = length (tasks k)" unfolding e by simp
  fix i assume "i < length (tasks k)"
  then show "tasks (checkWatchdog k now) ! i =
                (if state (tasks k ! i) \<noteq> TASK_EMPTY \<and> state (tasks k ! i) \<noteq> TASK_SLEEPING
                    \<and> now - lastYield (tasks k ! i) > WATCHDOG_TIMEOUT_MS
                 then (tasks k ! i)\<lparr> state := (if state (tasks k ! i) = TASK_RUNNING then TASK_READY
                                                else state (tasks k ! i)),
                                      lastYield := now \<rparr>
                 else tasks k ! i)"
    unfolding e by (simp add: watchdogTask_eq)
next
  fix i assume i: "i < length (tasks k)" and s: "state (tasks (checkWatchdog k now) ! i) = TASK_EMPTY"
  show "state (tasks k ! i) = TASK_EMPTY"
  proof (cases "checkWatchdog k now = k")
    case True then show ?thesis using s by simp
  next
    case False
    then have e: "checkWatchdog k now = k\<lparr> watchdogLastCheck := now, tasks := map (watchdogTask now) (tasks k) \<rparr>"
      by (simp add: checkWatchdog_def split: if_splits)
    show ?thesis using s i unfolding e by (simp add: watchdogTask_empty)
  qed
qed


text \<open>
  The check on \<open>runningKernel\<close> (shell task running, last yield at 0): at time 6000 it
  runs and forces the shell task to ready; at time 500 it is a no-op.
\<close>

lemma runningKernel_fields:
  "watchdogEnabled runningKernel" "watchdogLastCheck runningKernel = 0"
  "length (tasks runningKernel) = 8" "state (tasks runningKernel ! 1) = TASK_RUNNING"
  "lastYield (tasks runningKernel ! 1) = 0" "currentTaskId runningKernel = 1"
  by (simp_all add: runningKernel_eq bootKernel_misc shellTask_def zeroTask_def)

theorem checkWatchdog_spec_witness:
  "watchdogEnabled runningKernel \<and> \<not> 6000 - watchdogLastCheck runningKernel < 1000
   \<and> 1 < length (tasks runningKernel)
   \<and> state (tasks runningKernel ! 1) = TASK_RUNNING
   \<and> 6000 - lastYield (tasks runningKernel ! 1) > WATCHDOG_TIMEOUT_MS
   \<and> state (tasks (checkWatchdog runningKernel 6000) ! 1) = TASK_READY
   \<and> lastYield (tasks (checkWatchdog runningKernel 6000) ! 1) = 6000
   \<and> 500 - watchdogLastCheck runningKernel < 1000
   \<and> checkWatchdog runningKernel 500 = runningKernel"
proof -
  note a = runningKernel_fields
  have h1: "watchdogEnabled runningKernel \<and> \<not> 6000 - watchdogLastCheck runningKernel < 1000"
    by (simp add: a)
  have h2: "\<not> watchdogEnabled runningKernel \<or> 500 - watchdogLastCheck runningKernel < 1000"
    by (simp add: a)
  have i: "1 < length (tasks runningKernel)" by (simp add: a)
  from checkWatchdog_spec[of runningKernel 6000] h1 i
  have "tasks (checkWatchdog runningKernel 6000) ! 1 =
          (if state (tasks runningKernel ! 1) \<noteq> TASK_EMPTY \<and> state (tasks runningKernel ! 1) \<noteq> TASK_SLEEPING
                    \<and> 6000 - lastYield (tasks runningKernel ! 1) > WATCHDOG_TIMEOUT_MS
           then (tasks runningKernel ! 1)\<lparr> state := (if state (tasks runningKernel ! 1) = TASK_RUNNING
                    then TASK_READY else state (tasks runningKernel ! 1)), lastYield := 6000 \<rparr>
           else tasks runningKernel ! 1)"
    by blast
  then have r: "state (tasks (checkWatchdog runningKernel 6000) ! 1) = TASK_READY"
    "lastYield (tasks (checkWatchdog runningKernel 6000) ! 1) = 6000"
    by (simp_all add: a del: One_nat_def)
  from checkWatchdog_spec[of runningKernel 500] h2
  have n: "checkWatchdog runningKernel 500 = runningKernel" by blast
  show ?thesis using h1 i r n by (simp add: a del: One_nat_def)
qed

subsection \<open>C10: the capabilities of a new task\<close>

lemma allocateTaskId_range:
  "allocateTaskId k = tid \<Longrightarrow> 0 \<le> tid \<Longrightarrow> 1 \<le> tid \<and> tid < 8 \<and> state (tasks k ! nat tid) = TASK_EMPTY"
  by (auto simp: allocateTaskId_def find_Some_iff nat_add_distrib split: option.splits)

lemma createTask_new_task:
  assumes "createTask k name entry now = (tid, k')" "0 \<le> tid" "length (tasks k) = MAX_TASKS"
  shows "capabilities (tasks k' ! nat tid) = (True, True, False, True, False, False)"
    and "state (tasks k' ! nat tid) = TASK_READY" and "1 \<le> tid" and "tid < 8"
proof -
  from assms(1,2) have a: "allocateTaskId k = tid"
    by (auto simp: createTask_def Let_def split: if_splits)
  from allocateTaskId_range[OF a assms(2)] have r: "1 \<le> tid" "tid < 8" by auto
  then have n: "nat tid < length (tasks k)" using assms(3) by simp
  show "1 \<le> tid" "tid < 8" by (rule r)+
  show "capabilities (tasks k' ! nat tid) = (True, True, False, True, False, False)"
    using assms(1,2) n a by (auto simp: createTask_def Let_def capabilities_def captureStackTrace_def)
  show "state (tasks k' ! nat tid) = TASK_READY"
    using assms(1,2) n a by (auto simp: createTask_def Let_def captureStackTrace_def)
qed

lemma allocateFileHandle_ge: "allocateFileHandle k \<noteq> - 2" "allocateDirHandle k \<noteq> - 2"
  by (auto simp: allocateFileHandle_def allocateDirHandle_def split: option.splits)

lemma fileOpen_not_permission:
  "canAccessSD (getCurrentTask k) \<Longrightarrow> fst (fileOpen hw k path wr) \<noteq> SYS_ERR_PERMISSION"
  using allocateFileHandle_ge(1)[of k] by (auto simp: fileOpen_def Let_def)

lemma dirOpen_not_permission:
  "canAccessSD (getCurrentTask k) \<Longrightarrow> fst (dirOpen hw k path) \<noteq> SYS_ERR_PERMISSION"
  using allocateFileHandle_ge(2)[of k] by (auto simp: dirOpen_def Let_def)

text \<open>
  C10. A task that \<^verbatim>\<open>createTask\<close> has created has the capabilities SD, Display and GPIO
  and lacks TaskCreation, I2C and SPI. Hence, in any state whose current task has these
  capabilities: every I2C and every SPI operation returns \<open>SYS_ERR_PERMISSION\<close> and issues
  no hardware command (and leaves the caller's buffer alone); every GPIO operation gets
  past the check and issues its command; \<^verbatim>\<open>fileOpen\<close> and \<^verbatim>\<open>dirOpen\<close> never return
  \<open>SYS_ERR_PERMISSION\<close>; and with the SD card mounted \<^verbatim>\<open>fileDelete\<close>, \<^verbatim>\<open>fileExists\<close>,
  \<^verbatim>\<open>dirCreate\<close> and \<^verbatim>\<open>dirRemove\<close> return what the storage driver returns. (The other file
  and directory operations check the owner of the handle, not a capability.)
\<close>

theorem createTask_capabilities:
  assumes created: "createTask k name entry now = (tid, k')" and ok: "0 \<le> tid"
    and len: "length (tasks k) = MAX_TASKS"
  shows "capabilities (tasks k' ! nat tid) = (True, True, False, True, False, False)
     \<and> (\<forall>kc. capabilities (getCurrentTask kc) = capabilities (tasks k' ! nat tid) \<longrightarrow>
          (\<forall>hw a d n b. i2cBegin kc a = (SYS_ERR_PERMISSION, [])
                    \<and> i2cWrite hw kc a d n = (SYS_ERR_PERMISSION, [])
                    \<and> i2cRead hw kc a b n = (SYS_ERR_PERMISSION, [], b)
                    \<and> i2cRequest hw kc a n = (SYS_ERR_PERMISSION, []))
        \<and> (\<forall>hw tx rx n. spiBegin kc = (SYS_ERR_PERMISSION, [])
                    \<and> spiTransfer hw kc tx rx n = (SYS_ERR_PERMISSION, [], rx)
                    \<and> spiEnd kc = (SYS_ERR_PERMISSION, []))
        \<and> (\<forall>hw pin v. gpioSetMode kc pin v = (SYS_OK, [HwPinMode pin v])
                    \<and> gpioWrite kc pin v = (SYS_OK, [HwDigitalWrite pin v])
                    \<and> gpioRead hw kc pin = (hwDigitalRead hw pin, [HwDigitalRead pin])
                    \<and> gpioAnalogRead hw kc pin = (hwAnalogRead hw pin, [HwAnalogRead pin])
                    \<and> gpioAnalogWrite kc pin v = (SYS_OK, [HwAnalogWrite pin v]))
        \<and> (\<forall>hw path wr. fst (fileOpen hw kc path wr) \<noteq> SYS_ERR_PERMISSION
                    \<and> fst (dirOpen hw kc path) \<noteq> SYS_ERR_PERMISSION
                    \<and> (sdInitialized kc \<longrightarrow>
                          fileDelete hw kc path = hwSdRemove hw path
                        \<and> fileExists hw kc path = hwSdExists hw path
                        \<and> dirCreate hw kc path = hwSdMkdir hw path
                        \<and> dirRemove hw kc path = hwSdRmdir hw path)))"
proof (intro conjI allI impI)
  show c: "capabilities (tasks k' ! nat tid) = (True, True, False, True, False, False)"
    by (rule createTask_new_task(1)[OF created ok len])
  fix kc assume "capabilities (getCurrentTask kc) = capabilities (tasks k' ! nat tid)"
  then have caps: "canAccessSD (getCurrentTask kc)" "canAccessGPIO (getCurrentTask kc)"
    "\<not> canAccessI2C (getCurrentTask kc)" "\<not> canAccessSPI (getCurrentTask kc)"
    unfolding c by (simp_all add: capabilities_def)
  fix hw :: Hardware and a :: byte and d b tx rx :: "byte list option" and n :: nat
    and pin v :: int and path :: string and wr :: bool
  show "i2cBegin kc a = (SYS_ERR_PERMISSION, [])" using caps by (simp add: i2cBegin_def)
  show "i2cWrite hw kc a d n = (SYS_ERR_PERMISSION, [])" using caps by (simp add: i2cWrite_def)
  show "i2cRead hw kc a b n = (SYS_ERR_PERMISSION, [], b)" using caps by (simp add: i2cRead_def)
  show "i2cRequest hw kc a n = (SYS_ERR_PERMISSION, [])" using caps by (simp add: i2cRequest_def)
  show "spiBegin kc = (SYS_ERR_PERMISSION, [])" using caps by (simp add: spiBegin_def)
  show "spiTransfer hw kc tx rx n = (SYS_ERR_PERMISSION, [], rx)" using caps by (simp add: spiTransfer_def)
  show "spiEnd kc = (SYS_ERR_PERMISSION, [])" using caps by (simp add: spiEnd_def)
  show "gpioSetMode kc pin v = (SYS_OK, [HwPinMode pin v])" using caps by (simp add: gpioSetMode_def)
  show "gpioWrite kc pin v = (SYS_OK, [HwDigitalWrite pin v])" using caps by (simp add: gpioWrite_def)
  show "gpioRead hw kc pin = (hwDigitalRead hw pin, [HwDigitalRead pin])" using caps by (simp add: gpioRead_def)
  show "gpioAnalogRead hw kc pin = (hwAnalogRead hw pin, [HwAnalogRead pin])"
    using caps by (simp add: gpioAnalogRead_def)
  show "gpioAnalogWrite kc pin v = (SYS_OK, [HwAnalogWrite pin v])" using caps by (simp add: gpioAnalogWrite_def)
  show "fst (fileOpen hw kc path wr) \<noteq> SYS_ERR_PERMISSION" by (rule fileOpen_not_permission[OF caps(1)])
  show "fst (dirOpen hw kc path) \<noteq> SYS_ERR_PERMISSION" by (rule dirOpen_not_permission[OF caps(1)])
  assume "sdInitialized kc"
  then show "fileDelete hw kc path = hwSdRemove hw path" "fileExists hw kc path = hwSdExists hw path"
    "dirCreate hw kc path = hwSdMkdir hw path" "dirRemove hw kc path = hwSdRmdir hw path"
    using caps by (simp_all add: fileDelete_def fileExists_def dirCreate_def dirRemove_def)
qed


text \<open>
  The theorem at the shell task of \<^verbatim>\<open>shell.ino\<close>: created at boot in slot 1, and current
  in \<open>runningKernel\<close>.
\<close>

theorem createTask_capabilities_witness:
  "createTask bootKernel ''shell'' (Some 1) 0 = (1, shellKernel)
   \<and> length (tasks bootKernel) = MAX_TASKS
   \<and> capabilities (tasks shellKernel ! 1) = (True, True, False, True, False, False)
   \<and> capabilities (getCurrentTask runningKernel) = capabilities (tasks shellKernel ! 1)
   \<and> i2cBegin runningKernel 8 = (SYS_ERR_PERMISSION, [])
   \<and> spiBegin runningKernel = (SYS_ERR_PERMISSION, [])
   \<and> gpioWrite runningKernel 13 1 = (SYS_OK, [HwDigitalWrite 13 1])
   \<and> sdInitialized runningKernel
   \<and> fst (fileOpen testHardware runningKernel ''/log'' False) \<noteq> SYS_ERR_PERMISSION
   \<and> fileExists testHardware runningKernel ''/log''"
proof -
  have c: "createTask bootKernel ''shell'' (Some 1) 0 = (1, shellKernel)"
    using shellKernel_eq(2) by (simp add: shellKernel_def prod_eq_iff)
  have len: "length (tasks bootKernel) = MAX_TASKS" by (simp add: bootKernel_tasks)
  have ok: "0 \<le> (1::int)" by simp
  have n1: "nat 1 = 1" by simp
  note t = createTask_capabilities[OF c ok len, unfolded n1]
  have caps: "capabilities (getCurrentTask runningKernel) = capabilities (tasks shellKernel ! 1)"
    by (simp add: getCurrentTask_def runningKernel_eq shellKernel_eq capabilities_def)
  have sd: "sdInitialized runningKernel" by (simp add: runningKernel_eq bootKernel_misc)
  have ex: "hwSdExists testHardware ''/log''" by (simp add: testHardware_def)
  note r = t[THEN conjunct2, rule_format, OF caps]
  have i: "i2cBegin runningKernel 8 = (SYS_ERR_PERMISSION, [])"
    by (rule r[THEN conjunct1, rule_format, THEN conjunct1])
  have sp: "spiBegin runningKernel = (SYS_ERR_PERMISSION, [])"
    by (rule r[THEN conjunct2, THEN conjunct1, rule_format, THEN conjunct1])
  have g: "gpioWrite runningKernel 13 1 = (SYS_OK, [HwDigitalWrite 13 1])"
    by (rule r[THEN conjunct2, THEN conjunct2, THEN conjunct1, rule_format,
               THEN conjunct2, THEN conjunct1])
  note fo = r[THEN conjunct2, THEN conjunct2, THEN conjunct2, rule_format]
  have f: "fst (fileOpen testHardware runningKernel ''/log'' False) \<noteq> SYS_ERR_PERMISSION"
    by (rule fo[THEN conjunct1])
  have "fileExists testHardware runningKernel ''/log'' = hwSdExists testHardware ''/log''"
    by (rule fo[THEN conjunct2, THEN conjunct2, rule_format, OF sd, THEN conjunct2, THEN conjunct1])
  then have fe: "fileExists testHardware runningKernel ''/log''" using ex by simp
  show ?thesis using c len t[THEN conjunct1] caps i sp g sd f fe by simp
qed

subsection \<open>C9: free, then compact\<close>

text \<open>
  Claim C9, amended. Let the heap be a chain of blocks \<open>bs\<close> below a watermark within the
  capacity, and let \<^verbatim>\<open>memFree\<close> be called with the payload address of the \<open>i\<close>-th block,
  which is in use. Then \<^verbatim>\<open>memFree\<close> returns; the watermark \<open>heapUsed\<close> and \<^verbatim>\<open>memAvailable\<close>
  are what they were; of the heap only the header of that block changes, and there only
  the flag \<open>inUse\<close>; of the rest of the kernel state only the field \<open>memoryUsed\<close> of the
  owner's slot changes. The compaction that follows returns and raises \<^verbatim>\<open>memAvailable\<close> by
  the size of the freed block plus the header size, plus the space \<open>freeSpace bs\<close> of
  the blocks that were free already: a compaction reclaims every free block, not only the
  last one freed.
\<close>

theorem memFree_memCompact:
  assumes blocks: "heapBlocks k = Some bs" and cap: "heapUsed k \<le> KERNEL_HEAP_SIZE"
    and i: "i < length bs" and live: "inUse (bs ! i)"
  shows "\<exists>k1 k2. memFree k (Some (blockOffset bs i + HEADER_SIZE)) = Returns k1
       \<and> heapUsed k1 = heapUsed k \<and> memAvailable k1 = memAvailable k
       \<and> kernelHeap k1 = (kernelHeap k)(blockOffset bs i := Some ((bs ! i)\<lparr> inUse := False \<rparr>))
       \<and> k1 = k\<lparr> tasks := tasks k1, kernelHeap := kernelHeap k1 \<rparr>
       \<and> length (tasks k1) = length (tasks k)
       \<and> (\<forall>j<length (tasks k).
             tasks k1 ! j = (tasks k ! j)\<lparr> memoryUsed := memoryUsed (tasks k1 ! j) \<rparr>
           \<and> (int j \<noteq> ownerTaskId (bs ! i) \<longrightarrow> tasks k1 ! j = tasks k ! j))
       \<and> memCompact k1 = Some (Returns k2)
       \<and> memAvailable k2 = memAvailable k + (blockSize (bs ! i) + HEADER_SIZE) + freeSpace bs"
proof -
  let ?off = "blockOffset bs i" and ?b = "bs ! i"
  let ?ts = "if 0 \<le> ownerTaskId ?b \<and> ownerTaskId ?b < int MAX_TASKS
             then (tasks k)[nat (ownerTaskId ?b) := (tasks k ! nat (ownerTaskId ?b))
                    \<lparr> memoryUsed := sz_sub (memoryUsed (tasks k ! nat (ownerTaskId ?b))) (blockSize ?b) \<rparr>]
             else tasks k"
  let ?k1 = "k\<lparr> tasks := ?ts, kernelHeap := (kernelHeap k)(?off := Some (?b\<lparr> inUse := False \<rparr>)) \<rparr>"
  have hb: "kernelHeap k ?off = Some ?b"
    using heapWalk_nth[OF blocks[unfolded heapBlocks_def] i] by simp
  have f: "memFree k (Some (?off + HEADER_SIZE)) = Returns ?k1"
    unfolding memFree_def by (rule freeMemoryInternal_block[OF hb live])
  have b1: "heapBlocks ?k1 = Some (bs[i := ?b\<lparr> inUse := False \<rparr>])"
    using heapWalk_update[OF blocks[unfolded heapBlocks_def] i, of "?b\<lparr> inUse := False \<rparr>"]
    by (simp add: heapBlocks_def)
  have cap1: "heapUsed ?k1 \<le> KERNEL_HEAP_SIZE" using cap by simp
  from compactMemory_blocks[OF b1 cap1]
  obtain k2 where c: "compactMemory ?k1 = Some (Returns k2)"
    and a: "memAvailable k2 = memAvailable ?k1 + freeSpace (bs[i := ?b\<lparr> inUse := False \<rparr>])"
    by blast
  have av: "memAvailable ?k1 = memAvailable k" by (simp add: memAvailable_def)
  have a2: "memAvailable k2 = memAvailable k + (blockSize ?b + HEADER_SIZE) + freeSpace bs"
    using a av freeSpace_update[OF i live] by simp
  have tj: "\<forall>j<length (tasks k).
             tasks ?k1 ! j = (tasks k ! j)\<lparr> memoryUsed := memoryUsed (tasks ?k1 ! j) \<rparr>
           \<and> (int j \<noteq> ownerTaskId ?b \<longrightarrow> tasks ?k1 ! j = tasks k ! j)"
  proof (intro allI impI)
    fix j assume j: "j < length (tasks k)"
    show "tasks ?k1 ! j = (tasks k ! j)\<lparr> memoryUsed := memoryUsed (tasks ?k1 ! j) \<rparr>
           \<and> (int j \<noteq> ownerTaskId ?b \<longrightarrow> tasks ?k1 ! j = tasks k ! j)"
    proof (cases "0 \<le> ownerTaskId ?b \<and> ownerTaskId ?b < int MAX_TASKS")
      case False
      then show ?thesis by auto
    next
      case True
      then show ?thesis using j by (cases "j = nat (ownerTaskId ?b)") (auto simp: nth_list_update)
    qed
  qed
  show ?thesis
    apply (rule exI[of _ ?k1], rule exI[of _ k2])
    using f c a2 av tj unfolding memCompact_def
    by (simp del: fun_upd_apply)
qed



text \<open>
  The claim as stated, without the blocks that were free already, fails when there is
  one. In \<open>heap3f\<close> the middle one of three blocks of 100 bytes is free. Freeing the
  third one leaves \<^verbatim>\<open>memAvailable\<close> as it was, and the compaction that follows raises it
  by 232, twice the size of the freed block plus the header size.
\<close>

theorem memFree_memCompact_counterexample:
  "heapBlocks heap3f = Some [blockA, blockF, blockA]
   \<and> inUse blockA \<and> blockSize blockA + HEADER_SIZE = 116
   \<and> memFree heap3f (Some 248) = Returns heap3ff
   \<and> memAvailable heap3ff = memAvailable heap3f
   \<and> memCompact heap3ff = Some (Returns heap3fc)
   \<and> memAvailable heap3fc = memAvailable heap3f + 232"
  by (simp add: heapBlocks_heap3 memFree_heap3f memCompact_heap3ff)
     (simp add: blockA_def memAvailable_small heap3f_def heap3ff_def heap3fc_def heapState_fields)

text \<open>
  The theorem at scenario 5 of the specification: three blocks of 100 bytes are allocated
  at boot, the middle one is freed, the heap is compacted. No block was free before, and
  \<^verbatim>\<open>memAvailable\<close> rises by 100 plus the header size.
\<close>

theorem memFree_memCompact_witness:
  "memAlloc bootKernel 100 = Some (Returns (Some 16, heap1))
   \<and> memAlloc heap1 100 = Some (Returns (Some 132, heap2))
   \<and> memAlloc heap2 100 = Some (Returns (Some 248, heap3))
   \<and> heapBlocks heap3 = Some [blockA, blockA, blockA]
   \<and> heapUsed heap3 \<le> KERNEL_HEAP_SIZE
   \<and> inUse ([blockA, blockA, blockA] ! 1)
   \<and> memFree heap3 (Some 132) = Returns heap3f
   \<and> memAvailable heap3f = memAvailable heap3
   \<and> memCompact heap3f = Some (Returns heap3c)
   \<and> memAvailable heap3c = memAvailable heap3 + 116"
proof -
  have cap: "heapUsed heap3 \<le> KERNEL_HEAP_SIZE" by (simp add: heap3_def heapState_fields)
  have i: "1 < length [blockA, blockA, blockA]" by simp
  have live: "inUse ([blockA, blockA, blockA] ! 1)" by (simp add: blockA_def)
  have off: "blockOffset [blockA, blockA, blockA] 1 + HEADER_SIZE = 132"
    by (simp add: blockOffset_def blockA_def)
  have fs: "blockSize ([blockA, blockA, blockA] ! 1) + HEADER_SIZE + freeSpace [blockA, blockA, blockA] = 116"
    by (simp add: freeSpace_def blockA_def)
  from memFree_memCompact[OF heapBlocks_heap3(1) cap i live, unfolded off]
  obtain k1 k2 where f: "memFree heap3 (Some 132) = Returns k1"
    and a1: "memAvailable k1 = memAvailable heap3"
    and c: "memCompact k1 = Some (Returns k2)"
    and a2: "memAvailable k2 = memAvailable heap3 + (blockSize ([blockA, blockA, blockA] ! 1) + HEADER_SIZE)
               + freeSpace [blockA, blockA, blockA]"
    by blast
  from f have k1: "k1 = heap3f" by (simp add: memFree_heap3)
  from c have k2: "k2 = heap3c" by (simp add: k1 memCompact_heap3f)
  have r: "memAvailable heap3c = memAvailable heap3 + 116"
    using a2 fs unfolding k2 by (simp only: add.assoc)
  show ?thesis
    using a1[unfolded k1] r cap live
    by (simp only: memAlloc_boot memAlloc_heap1 memAlloc_heap2 heapBlocks_heap3 memFree_heap3
        memCompact_heap3f simp_thms)
qed
subsection \<open>C6: allocation\<close>

text \<open>
  Claim C6: \<^verbatim>\<open>memAlloc(size)\<close> returns null when \<open>used + header + rounded size\<close> exceeds the
  capacity also after compaction. Lemma \<open>memAlloc_rounds\<close> is the claim for requests of at
  most \<open>2 ^ 31\<close> bytes. The sums of \<^verbatim>\<open>allocateMemoryInternal\<close> are computed in \<^verbatim>\<open>size_t\<close> and
  wrap, and for a large request the code does something else. At boot the heap is empty. A
  request of 4294967280 bytes, a multiple of 4, needs 16 + 4294967280 bytes, more than the
  capacity of 524288. The code computes \<^verbatim>\<open>totalNeeded\<close> \<open>= 0\<close>, finds \<open>0 + 0\<close> within the
  capacity, writes the header at offset 0 and returns the payload address 16 instead of
  null; the watermark stays at 0 and the idle task is charged 4294967280 bytes. The next
  request, of 100 bytes, overwrites that header and is given the same address.
\<close>

theorem memAlloc_overflow:
  "memAlloc bootKernel 4294967280 = Some (Returns (Some 16, heapHuge))
   \<and> heapUsed bootKernel = 0 \<and> heapUsed heapHuge = 0
   \<and> KERNEL_HEAP_SIZE < heapUsed bootKernel + HEADER_SIZE + 4294967280
   \<and> memoryUsed (tasks heapHuge ! 0) = 4294967280
   \<and> memAlloc heapHuge 100 = Some (Returns (Some 16, heapState [0 \<mapsto> blockA] 116 84))"
proof -
  have a: "memAlloc bootKernel 4294967280 = Some (Returns (Some 16, heapHuge))"
    unfolding bootKernel_heapState
    by (simp add: memAlloc_def allocateMemoryInternal_def heapState_fields placeBlock_heapState
      sz_add_def Let_def heapHuge_def hugeBlock_def clobber_simps)
  have b: "memAlloc heapHuge 100 = Some (Returns (Some 16, heapState [0 \<mapsto> blockA] 116 84))"
    by (simp add: memAlloc_def allocateMemoryInternal_def heapState_fields placeBlock_heapState_wrap
      sz_add_def Let_def heapHuge_def hugeBlock_def clobber_simps blockA_def)
  show ?thesis using a b by (simp add: bootKernel_heap heapHuge_def heapState_fields bootKernel_tasks)
qed

subsection \<open>C2: memory accounting\<close>

lemma ownedBytes_Nil: "ownedBytes [] i = 0"
  by (simp add: ownedBytes_def)

lemma ownedBytes_Cons:
  "ownedBytes (b # bs) i =
     (if inUse b \<and> ownerTaskId b = int i then blockSize b else 0) + ownedBytes bs i"
  by (simp add: ownedBytes_def)

lemma ownedBytes_append: "ownedBytes (bs @ cs) i = ownedBytes bs i + ownedBytes cs i"
  by (simp add: ownedBytes_def)

lemma ownedBytes_filter: "ownedBytes (filter inUse bs) i = ownedBytes bs i"
  by (induction bs) (simp_all add: ownedBytes_Nil ownedBytes_Cons)

lemma ownedBytes_le: "ownedBytes bs i \<le> sum_list (map blockTotal bs)"
  by (induction bs) (simp_all add: ownedBytes_Nil ownedBytes_Cons)

lemma ownedBytes_nth:
  "i < length bs \<Longrightarrow> inUse (bs ! i) \<Longrightarrow> ownerTaskId (bs ! i) = int j \<Longrightarrow>
   blockSize (bs ! i) \<le> ownedBytes bs j"
proof (induction bs arbitrary: i)
  case Nil then show ?case by simp
next
  case (Cons b bs)
  then show ?case by (cases i) (auto simp: ownedBytes_Cons intro: trans_le_add2)
qed

lemma ownedBytes_update:
  "i < length bs \<Longrightarrow> inUse (bs ! i) \<Longrightarrow>
   ownedBytes (bs[i := (bs ! i)\<lparr> inUse := False \<rparr>]) j +
     (if ownerTaskId (bs ! i) = int j then blockSize (bs ! i) else 0) = ownedBytes bs j"
proof (induction bs arbitrary: i)
  case Nil then show ?case by simp
next
  case (Cons b bs)
  show ?case
  proof (cases i)
    case 0
    then show ?thesis using Cons.prems by (simp add: ownedBytes_Cons)
  next
    case (Suc n)
    then show ?thesis using Cons.prems Cons.IH[of n] by (auto simp: ownedBytes_Cons split: if_splits)
  qed
qed

lemma liveBytes_Cons:
  "liveBytes [] = 0" "liveBytes (b # bs) = (if inUse b then blockSize b else 0) + liveBytes bs"
  by (simp_all add: liveBytes_def)

lemma owner_sum:
  assumes "inUse b \<longrightarrow> 0 \<le> ownerTaskId b \<and> ownerTaskId b < int n"
  shows "(\<Sum>i<n. if inUse b \<and> ownerTaskId b = int i then blockSize b else 0) =
         (if inUse b then blockSize b else 0)"
proof (cases "inUse b")
  case False then show ?thesis by simp
next
  case True
  with assms have r: "0 \<le> ownerTaskId b" "nat (ownerTaskId b) < n" by auto
  have "\<And>i. (ownerTaskId b = int i) = (i = nat (ownerTaskId b))" using r(1) by auto
  then have "(\<Sum>i<n. if inUse b \<and> ownerTaskId b = int i then blockSize b else 0) =
             (\<Sum>i\<in>{..<n}. if i = nat (ownerTaskId b) then blockSize b else 0)"
    using True by simp
  also have "\<dots> = blockSize b" using r(2) by (simp add: sum.delta)
  finally show ?thesis using True by simp
qed

lemma owned_sum:
  "\<forall>b \<in> set bs. inUse b \<longrightarrow> 0 \<le> ownerTaskId b \<and> ownerTaskId b < int n \<Longrightarrow>
   (\<Sum>i<n. ownedBytes bs i) = liveBytes bs"
proof (induction bs)
  case Nil then show ?case by (simp add: ownedBytes_Nil liveBytes_Cons)
next
  case (Cons b bs)
  then have IH: "(\<Sum>i<n. ownedBytes bs i) = liveBytes bs" by simp
  from Cons.prems have o: "inUse b \<longrightarrow> 0 \<le> ownerTaskId b \<and> ownerTaskId b < int n" by simp
  show ?case
    by (simp only: ownedBytes_Cons sum.distrib owner_sum[OF o] IH liveBytes_Cons)
qed

lemma sum_list_nth: "sum_list (map f xs) = (\<Sum>i<length xs. f (xs ! i))"
  by (simp add: sum_list_sum_nth atLeast0LessThan)

lemma accounted_sum:
  assumes "accounted k"
  shows "\<exists>bs. heapBlocks k = Some bs \<and> sum_list (map memoryUsed (tasks k)) = liveBytes bs"
proof -
  from assms obtain bs where b: "heapBlocks k = Some bs"
    and len: "length (tasks k) = MAX_TASKS"
    and own: "\<forall>b \<in> set bs. inUse b \<longrightarrow> 0 \<le> ownerTaskId b \<and> ownerTaskId b < int MAX_TASKS"
    and mu: "\<forall>i \<in> set [0..<MAX_TASKS]. memoryUsed (tasks k ! i) = ownedBytes bs i"
    by (auto simp: accounted_def split: option.splits)
  have "sum_list (map memoryUsed (tasks k)) = (\<Sum>i<MAX_TASKS. memoryUsed (tasks k ! i))"
    by (simp only: sum_list_nth len)
  also have "\<dots> = (\<Sum>i<MAX_TASKS. ownedBytes bs i)"
    using mu by (intro sum.cong) auto
  also have "\<dots> = liveBytes bs" by (rule owned_sum[OF own])
  finally show ?thesis using b by simp
qed

lemma accountedI:
  assumes "heapUsed k \<le> KERNEL_HEAP_SIZE" "length (tasks k) = MAX_TASKS" "currentTaskId k < MAX_TASKS"
    "heapBlocks k = Some bs"
    "\<And>b. b \<in> set bs \<Longrightarrow> inUse b \<Longrightarrow> 0 \<le> ownerTaskId b \<and> ownerTaskId b < int MAX_TASKS"
    "\<And>i. i < MAX_TASKS \<Longrightarrow> memoryUsed (tasks k ! i) = ownedBytes bs i"
  shows "accounted k"
  using assms by (auto simp: accounted_def)

lemma accountedD:
  assumes "accounted k"
  shows "heapUsed k \<le> KERNEL_HEAP_SIZE" "length (tasks k) = MAX_TASKS" "currentTaskId k < MAX_TASKS"
    "\<exists>bs. heapBlocks k = Some bs
       \<and> (\<forall>b \<in> set bs. inUse b \<longrightarrow> 0 \<le> ownerTaskId b \<and> ownerTaskId b < int MAX_TASKS)
       \<and> (\<forall>i<MAX_TASKS. memoryUsed (tasks k ! i) = ownedBytes bs i)"
  using assms by (auto simp: accounted_def split: option.splits)

lemma accounted_memCompact:
  assumes "accounted k"
  shows "\<exists>k'. memCompact k = Some (Returns k') \<and> accounted k' \<and> heapUsed k' \<le> heapUsed k
             \<and> currentTaskId k' = currentTaskId k"
proof -
  note cap = accountedD(1)[OF assms] and len = accountedD(2)[OF assms] and cur = accountedD(3)[OF assms]
  from accountedD(4)[OF assms] obtain bs where b: "heapBlocks k = Some bs"
    and own0: "\<forall>b \<in> set bs. inUse b \<longrightarrow> 0 \<le> ownerTaskId b \<and> ownerTaskId b < int MAX_TASKS"
    and mu0: "\<forall>i<MAX_TASKS. memoryUsed (tasks k ! i) = ownedBytes bs i"
    by blast
  from own0 have own: "\<And>b. b \<in> set bs \<Longrightarrow> inUse b \<Longrightarrow> 0 \<le> ownerTaskId b \<and> ownerTaskId b < int MAX_TASKS"
    by blast
  from mu0 have mu: "\<And>i. i < MAX_TASKS \<Longrightarrow> memoryUsed (tasks k ! i) = ownedBytes bs i"
    by blast
  from compactMemory_blocks[OF b cap] obtain k' where
    c: "compactMemory k = Some (Returns k')"
    and e: "k' = k\<lparr> kernelHeap := kernelHeap k', heapUsed := heapUsed k' \<rparr>"
    and b': "heapBlocks k' = Some (filter inUse bs)"
    and u: "heapUsed k' + freeSpace bs = heapUsed k" by blast
  have t: "tasks k' = tasks k" by (subst e) simp
  have cu: "currentTaskId k' = currentTaskId k" by (subst e) simp
  have "accounted k'"
  proof (rule accountedI[OF _ _ _ b'])
    show "heapUsed k' \<le> KERNEL_HEAP_SIZE" using u cap by simp
    show "length (tasks k') = MAX_TASKS" using len t by simp
    show "currentTaskId k' < MAX_TASKS" using cur cu by simp
    show "\<And>b. b \<in> set (filter inUse bs) \<Longrightarrow> inUse b \<Longrightarrow> 0 \<le> ownerTaskId b \<and> ownerTaskId b < int MAX_TASKS"
      using own by simp
    show "\<And>i. i < MAX_TASKS \<Longrightarrow> memoryUsed (tasks k' ! i) = ownedBytes (filter inUse bs) i"
      using mu by (simp add: t ownedBytes_filter)
  qed
  then show ?thesis using c u cu by (auto simp: memCompact_def)
qed

lemma accounted_placeBlock:
  assumes acc: "accounted k" and fits: "heapUsed k + HEADER_SIZE + sz \<le> KERNEL_HEAP_SIZE"
    and tid: "tid = int (currentTaskId k)"
  shows "accounted (snd (placeBlock k sz (HEADER_SIZE + sz) tid))"
proof -
  note cap = accountedD(1)[OF acc] and len = accountedD(2)[OF acc] and cur = accountedD(3)[OF acc]
  from accountedD(4)[OF acc] obtain bs where b: "heapBlocks k = Some bs"
    and own0: "\<forall>b \<in> set bs. inUse b \<longrightarrow> 0 \<le> ownerTaskId b \<and> ownerTaskId b < int MAX_TASKS"
    and mu0: "\<forall>i<MAX_TASKS. memoryUsed (tasks k ! i) = ownedBytes bs i"
    by blast
  from own0 have own: "\<And>b. b \<in> set bs \<Longrightarrow> inUse b \<Longrightarrow> 0 \<le> ownerTaskId b \<and> ownerTaskId b < int MAX_TASKS"
    by blast
  from mu0 have mu: "\<And>i. i < MAX_TASKS \<Longrightarrow> memoryUsed (tasks k ! i) = ownedBytes bs i"
    by blast
  let ?u = "heapUsed k" and ?c = "currentTaskId k"
  let ?blk = "\<lparr> blockSize = sz, ownerTaskId = tid, inUse = True, handleId = - 1 \<rparr>"
  let ?h = "(clobber (kernelHeap k) ?u (?u + HEADER_SIZE + sz))(?u := Some ?blk)"
  let ?ts = "(tasks k)[?c := (tasks k ! ?c)\<lparr> memoryUsed := sz_add (memoryUsed (tasks k ! ?c)) sz \<rparr>]"
  let ?k = "k\<lparr> kernelHeap := ?h, heapUsed := ?u + HEADER_SIZE + sz, tasks := ?ts \<rparr>"
  have su: "sz_add ?u (HEADER_SIZE + sz) = ?u + HEADER_SIZE + sz"
    using fits by (simp add: sz_add_def)
  have p: "snd (placeBlock k sz (HEADER_SIZE + sz) tid) = ?k"
    using cur by (simp add: placeBlock_def Let_def su tid)
  have w: "heapWalk (kernelHeap k) 0 ?u = Some bs" using b by (simp add: heapBlocks_def)
  have w1: "heapWalk ?h 0 ?u = Some bs"
    by (rule heapWalk_cong[OF w]) (simp add: clobber_def)
  have w2: "heapWalk ?h ?u (?u + blockTotal ?blk) = Some [?blk]"
    by (rule heapWalk_single) simp
  have w3: "heapWalk ?h 0 (?u + HEADER_SIZE + sz) = Some (bs @ [?blk])"
    using heapWalk_append[OF w1 w2] by (simp add: add.assoc)
  have tot: "?u = sum_list (map blockTotal bs)" using heapWalk_extent[OF w] by simp
  have "ownedBytes bs ?c \<le> ?u" using ownedBytes_le[of bs ?c] tot by simp
  then have sm: "sz_add (memoryUsed (tasks k ! ?c)) sz = ownedBytes bs ?c + sz"
    using mu[OF cur] fits by (simp add: sz_add_def)
  have "accounted ?k"
  proof (rule accountedI[where bs = "bs @ [?blk]"])
    show "heapUsed ?k \<le> KERNEL_HEAP_SIZE" using fits by simp
    show "length (tasks ?k) = MAX_TASKS" using len by simp
    show "currentTaskId ?k < MAX_TASKS" using cur by simp
    show "heapBlocks ?k = Some (bs @ [?blk])" using w3 by (simp add: heapBlocks_def)
    show "\<And>b. b \<in> set (bs @ [?blk]) \<Longrightarrow> inUse b \<Longrightarrow> 0 \<le> ownerTaskId b \<and> ownerTaskId b < int MAX_TASKS"
      using own cur tid by auto
    show "\<And>i. i < MAX_TASKS \<Longrightarrow> memoryUsed (tasks ?k ! i) = ownedBytes (bs @ [?blk]) i"
      using mu len cur sm tid
      by (simp add: ownedBytes_append ownedBytes_Cons ownedBytes_Nil nth_list_update)
  qed
  then show ?thesis by (simp only: p)
qed

lemma accounted_memAlloc:
  assumes acc: "accounted k" and small: "size0 \<le> 2 ^ 31"
  shows "\<exists>p k'. memAlloc k size0 = Some (Returns (p, k')) \<and> accounted k'"
proof (cases "size0 = 0")
  case True
  then show ?thesis using acc by (simp add: memAlloc_def allocateMemoryInternal_def)
next
  case False
  then have pos: "0 < size0" by simp
  note cap = accountedD(1)[OF acc]
  from accountedD(4)[OF acc] obtain bs where b: "heapBlocks k = Some bs" by blast
  from memAlloc_rounds[OF pos small b cap] obtain sz where
    m: "if heapUsed k + HEADER_SIZE + sz \<le> KERNEL_HEAP_SIZE
        then memAlloc k size0 =
               Some (Returns (placeBlock k sz (HEADER_SIZE + sz) (int (currentTaskId k))))
        else \<exists>k1. compactMemory k = Some (Returns k1)
               \<and> heapBlocks k1 = Some (filter inUse bs)
               \<and> heapUsed k1 + freeSpace bs = heapUsed k
               \<and> memAlloc k size0 =
                   Some (Returns (if heapUsed k1 + HEADER_SIZE + sz \<le> KERNEL_HEAP_SIZE
                                  then placeBlock k1 sz (HEADER_SIZE + sz) (int (currentTaskId k))
                                  else (None, k1)))"
    by blast
  show ?thesis
  proof (cases "heapUsed k + HEADER_SIZE + sz \<le> KERNEL_HEAP_SIZE")
    case True
    let ?r = "placeBlock k sz (HEADER_SIZE + sz) (int (currentTaskId k))"
    from m True have "memAlloc k size0 = Some (Returns (fst ?r, snd ?r))" by simp
    with accounted_placeBlock[OF acc True refl] show ?thesis by blast
  next
    case False
    with m obtain k1 where c: "compactMemory k = Some (Returns k1)"
      and a: "memAlloc k size0 =
                   Some (Returns (if heapUsed k1 + HEADER_SIZE + sz \<le> KERNEL_HEAP_SIZE
                                  then placeBlock k1 sz (HEADER_SIZE + sz) (int (currentTaskId k))
                                  else (None, k1)))" by auto
    from accounted_memCompact[OF acc] c have acc1: "accounted k1"
      and cu: "currentTaskId k1 = currentTaskId k" by (auto simp: memCompact_def)
    show ?thesis
    proof (cases "heapUsed k1 + HEADER_SIZE + sz \<le> KERNEL_HEAP_SIZE")
      case True
      let ?r = "placeBlock k1 sz (HEADER_SIZE + sz) (int (currentTaskId k))"
      from accounted_placeBlock[OF acc1 True, of "int (currentTaskId k)"] cu
      have "accounted (snd ?r)" by simp
      moreover from a True have "memAlloc k size0 = Some (Returns (fst ?r, snd ?r))" by simp
      ultimately show ?thesis by blast
    next
      case False
      then show ?thesis using a acc1 by simp
    qed
  qed
qed

lemma accounted_memFree:
  assumes acc: "accounted k" and b: "heapBlocks k = Some bs" and i: "i < length bs"
  shows "\<exists>k'. memFree k (Some (blockOffset bs i + HEADER_SIZE)) = Returns k' \<and> accounted k'"
proof -
  note cap = accountedD(1)[OF acc] and len = accountedD(2)[OF acc] and cur = accountedD(3)[OF acc]
  from accountedD(4)[OF acc] b
  have own0: "\<forall>b \<in> set bs. inUse b \<longrightarrow> 0 \<le> ownerTaskId b \<and> ownerTaskId b < int MAX_TASKS"
    and mu0: "\<forall>i<MAX_TASKS. memoryUsed (tasks k ! i) = ownedBytes bs i"
    by simp_all
  from own0 have own: "\<And>b. b \<in> set bs \<Longrightarrow> inUse b \<Longrightarrow> 0 \<le> ownerTaskId b \<and> ownerTaskId b < int MAX_TASKS"
    by blast
  from mu0 have mu: "\<And>i. i < MAX_TASKS \<Longrightarrow> memoryUsed (tasks k ! i) = ownedBytes bs i"
    by blast
  let ?off = "blockOffset bs i" and ?b = "bs ! i"
  have w: "heapWalk (kernelHeap k) 0 (heapUsed k) = Some bs" using b by (simp add: heapBlocks_def)
  have hb: "kernelHeap k ?off = Some ?b" using heapWalk_nth[OF w i] by simp
  show ?thesis
  proof (cases "inUse ?b")
    case False
    then have "memFree k (Some (?off + HEADER_SIZE)) = Returns k"
      using hb by (simp add: memFree_def freeMemoryInternal_def)
    then show ?thesis using acc by simp
  next
    case True
    from own[OF nth_mem[OF i] True] have o: "0 \<le> ownerTaskId ?b" "ownerTaskId ?b < int MAX_TASKS" by auto
    let ?o = "nat (ownerTaskId ?b)"
    have on: "?o < MAX_TASKS" "ownerTaskId ?b = int ?o" using o by auto
    let ?ts = "(tasks k)[?o := (tasks k ! ?o)\<lparr> memoryUsed := sz_sub (memoryUsed (tasks k ! ?o)) (blockSize ?b) \<rparr>]"
    let ?k = "k\<lparr> tasks := ?ts, kernelHeap := (kernelHeap k)(?off := Some (?b\<lparr> inUse := False \<rparr>)) \<rparr>"
    have f: "memFree k (Some (?off + HEADER_SIZE)) = Returns ?k"
      unfolding memFree_def using freeMemoryInternal_block[OF hb True] o by simp
    have w': "heapWalk (kernelHeap ?k) 0 (heapUsed ?k) = Some (bs[i := ?b\<lparr> inUse := False \<rparr>])"
      using heapWalk_update[OF w i, of "?b\<lparr> inUse := False \<rparr>"] by simp
    have tot: "heapUsed k = sum_list (map blockTotal bs)" using heapWalk_extent[OF w] by simp
    have ge: "blockSize ?b \<le> ownedBytes bs ?o" by (rule ownedBytes_nth[OF i True on(2)])
    have "ownedBytes bs ?o \<le> heapUsed k" using ownedBytes_le[of bs ?o] tot by simp
    then have sm: "sz_sub (memoryUsed (tasks k ! ?o)) (blockSize ?b) = ownedBytes bs ?o - blockSize ?b"
      using mu[OF on(1)] ge cap by (simp add: sz_sub_small)
    have "accounted ?k"
    proof (rule accountedI[where bs = "bs[i := ?b\<lparr> inUse := False \<rparr>]"])
      show "heapUsed ?k \<le> KERNEL_HEAP_SIZE" using cap by simp
      show "length (tasks ?k) = MAX_TASKS" using len by simp
      show "currentTaskId ?k < MAX_TASKS" using cur by simp
      show "heapBlocks ?k = Some (bs[i := ?b\<lparr> inUse := False \<rparr>])" using w' by (simp add: heapBlocks_def)
      show "\<And>b. b \<in> set (bs[i := ?b\<lparr> inUse := False \<rparr>]) \<Longrightarrow> inUse b \<Longrightarrow>
                 0 \<le> ownerTaskId b \<and> ownerTaskId b < int MAX_TASKS"
        using own set_update_subset_insert[of bs i "?b\<lparr> inUse := False \<rparr>"] by auto
      show "\<And>j. j < MAX_TASKS \<Longrightarrow> memoryUsed (tasks ?k ! j) = ownedBytes (bs[i := ?b\<lparr> inUse := False \<rparr>]) j"
      proof -
        fix j :: nat assume j: "j < MAX_TASKS"
        from ownedBytes_update[OF i True, of j]
        have u: "ownedBytes (bs[i := ?b\<lparr> inUse := False \<rparr>]) j =
                 ownedBytes bs j - (if ownerTaskId ?b = int j then blockSize ?b else 0)" by simp
        have e: "(ownerTaskId ?b = int j) = (j = ?o)" using o by auto
        show "memoryUsed (tasks ?k ! j) = ownedBytes (bs[i := ?b\<lparr> inUse := False \<rparr>]) j"
          using mu[OF j] len on(1) j sm by (simp add: u e nth_list_update)
      qed
    qed
    then show ?thesis using f by simp
  qed
qed

lemma fold_free_frame:
  "tasks (fold (\<lambda>i kk. if c i then freeFileHandle kk (int i) else kk) xs k) = tasks k
   \<and> kernelHeap (fold (\<lambda>i kk. if c i then freeFileHandle kk (int i) else kk) xs k) = kernelHeap k
   \<and> heapUsed (fold (\<lambda>i kk. if c i then freeFileHandle kk (int i) else kk) xs k) = heapUsed k
   \<and> currentTaskId (fold (\<lambda>i kk. if c i then freeFileHandle kk (int i) else kk) xs k) = currentTaskId k"
  "tasks (fold (\<lambda>i kk. if c i then freeDirHandle kk (int i) else kk) xs k) = tasks k
   \<and> kernelHeap (fold (\<lambda>i kk. if c i then freeDirHandle kk (int i) else kk) xs k) = kernelHeap k
   \<and> heapUsed (fold (\<lambda>i kk. if c i then freeDirHandle kk (int i) else kk) xs k) = heapUsed k
   \<and> currentTaskId (fold (\<lambda>i kk. if c i then freeDirHandle kk (int i) else kk) xs k) = currentTaskId k"
  by (induction xs arbitrary: k) (simp_all add: freeFileHandle_def freeDirHandle_def)

lemma killTask_frame:
  "kernelHeap (killTask k tid) = kernelHeap k" "heapUsed (killTask k tid) = heapUsed k"
  "currentTaskId (killTask k tid) = currentTaskId k"
  "tasks (killTask k tid) =
     (case getTask k tid of
        None \<Rightarrow> tasks k
      | Some t \<Rightarrow> if tid = 0 then tasks k
                  else (tasks k)[t := (tasks k ! t)\<lparr> state := TASK_EMPTY, taskId := - 1 \<rparr>])"
  by (simp_all add: killTask_def Let_def fold_free_frame split: option.splits)

lemma memoryUsed_kill:
  "memoryUsed ((xs[t := (xs ! t)\<lparr> state := s, taskId := n \<rparr>]) ! i) = memoryUsed (xs ! i)"
proof (cases "t < length xs")
  case True
  then show ?thesis by (simp add: nth_list_update)
next
  case False
  then have "length xs \<le> t" by simp
  then show ?thesis by (simp only: list_update_beyond)
qed

lemma accounted_killTask:
  assumes acc: "accounted k"
  shows "accounted (killTask k tid)"
proof -
  note cap = accountedD(1)[OF acc] and len = accountedD(2)[OF acc] and cur = accountedD(3)[OF acc]
  from accountedD(4)[OF acc] obtain bs where b: "heapBlocks k = Some bs"
    and own0: "\<forall>b \<in> set bs. inUse b \<longrightarrow> 0 \<le> ownerTaskId b \<and> ownerTaskId b < int MAX_TASKS"
    and mu0: "\<forall>i<MAX_TASKS. memoryUsed (tasks k ! i) = ownedBytes bs i"
    by blast
  from own0 have own: "\<And>b. b \<in> set bs \<Longrightarrow> inUse b \<Longrightarrow> 0 \<le> ownerTaskId b \<and> ownerTaskId b < int MAX_TASKS"
    by blast
  from mu0 have mu: "\<And>i. i < MAX_TASKS \<Longrightarrow> memoryUsed (tasks k ! i) = ownedBytes bs i"
    by blast
  show ?thesis
  proof (rule accountedI[where bs = bs])
    show "heapUsed (killTask k tid) \<le> KERNEL_HEAP_SIZE" using cap by (simp add: killTask_frame)
    show "length (tasks (killTask k tid)) = MAX_TASKS"
      using len by (simp add: killTask_frame split: option.splits)
    show "currentTaskId (killTask k tid) < MAX_TASKS" using cur by (simp add: killTask_frame)
    show "heapBlocks (killTask k tid) = Some bs" using b by (simp add: heapBlocks_def killTask_frame)
    show "\<And>b. b \<in> set bs \<Longrightarrow> inUse b \<Longrightarrow> 0 \<le> ownerTaskId b \<and> ownerTaskId b < int MAX_TASKS"
      by (rule own)
    show "\<And>i. i < MAX_TASKS \<Longrightarrow> memoryUsed (tasks (killTask k tid) ! i) = ownedBytes bs i"
      using mu by (simp add: killTask_frame memoryUsed_kill split: option.splits)
  qed
qed

lemma accounted_createTask:
  assumes acc: "accounted k"
    and adm: "allocateTaskId k < 0 \<or> memoryUsed (tasks k ! nat (allocateTaskId k)) = 0"
  shows "accounted (snd (createTask k name entry now))"
proof (cases "allocateTaskId k < 0")
  case True
  then show ?thesis using acc by (simp add: createTask_def)
next
  case False
  note cap = accountedD(1)[OF acc] and len = accountedD(2)[OF acc] and cur = accountedD(3)[OF acc]
  from accountedD(4)[OF acc] obtain bs where b: "heapBlocks k = Some bs"
    and own0: "\<forall>b \<in> set bs. inUse b \<longrightarrow> 0 \<le> ownerTaskId b \<and> ownerTaskId b < int MAX_TASKS"
    and mu0: "\<forall>i<MAX_TASKS. memoryUsed (tasks k ! i) = ownedBytes bs i"
    by blast
  from own0 have own: "\<And>b. b \<in> set bs \<Longrightarrow> inUse b \<Longrightarrow> 0 \<le> ownerTaskId b \<and> ownerTaskId b < int MAX_TASKS"
    by blast
  from mu0 have mu: "\<And>i. i < MAX_TASKS \<Longrightarrow> memoryUsed (tasks k ! i) = ownedBytes bs i"
    by blast
  let ?t = "nat (allocateTaskId k)"
  from False allocateTaskId_range[OF refl, of k] have t: "?t < MAX_TASKS" by auto
  from False adm have z: "memoryUsed (tasks k ! ?t) = 0" by simp
  obtain task where c: "snd (createTask k name entry now) = k\<lparr> tasks := (tasks k)[?t := task] \<rparr>"
    and m: "memoryUsed task = 0"
    using False by (simp add: createTask_def Let_def captureStackTrace_def)
  show ?thesis
    unfolding c
  proof (rule accountedI[where bs = bs])
    show "heapUsed (k\<lparr> tasks := (tasks k)[?t := task] \<rparr>) \<le> KERNEL_HEAP_SIZE" using cap by simp
    show "length (tasks (k\<lparr> tasks := (tasks k)[?t := task] \<rparr>)) = MAX_TASKS" using len by simp
    show "currentTaskId (k\<lparr> tasks := (tasks k)[?t := task] \<rparr>) < MAX_TASKS" using cur by simp
    show "heapBlocks (k\<lparr> tasks := (tasks k)[?t := task] \<rparr>) = Some bs" using b by (simp add: heapBlocks_def)
    show "\<And>b. b \<in> set bs \<Longrightarrow> inUse b \<Longrightarrow> 0 \<le> ownerTaskId b \<and> ownerTaskId b < int MAX_TASKS"
      by (rule own)
    show "\<And>i. i < MAX_TASKS \<Longrightarrow> memoryUsed (tasks (k\<lparr> tasks := (tasks k)[?t := task] \<rparr>) ! i) = ownedBytes bs i"
    proof -
      fix i :: nat assume i: "i < MAX_TASKS"
      show "memoryUsed (tasks (k\<lparr> tasks := (tasks k)[?t := task] \<rparr>) ! i) = ownedBytes bs i"
      proof (cases "i = ?t")
        case True
        then show ?thesis using mu[OF t] z m t len by simp
      next
        case False
        then show ?thesis using mu[OF i] by simp
      qed
    qed
  qed
qed

lemma accounted_heapCall:
  assumes acc: "accounted k" and adm: "admissible k c"
  shows "\<exists>k'. heapCall k c = Some (Returns k') \<and> accounted k'"
proof (cases c)
  case (CreateTask name entry now)
  then show ?thesis using accounted_createTask[OF acc] adm
    by (simp add: heapCall_def admissible_def Let_def)
next
  case (KillTask tid)
  then show ?thesis using accounted_killTask[OF acc] by (simp add: heapCall_def)
next
  case (MemAlloc size0)
  with adm have "size0 \<le> 2 ^ 31" by (simp add: admissible_def)
  from accounted_memAlloc[OF acc this] show ?thesis using MemAlloc by (auto simp: heapCall_def)
next
  case (MemFree ptr)
  show ?thesis
  proof (cases ptr)
    case None
    then show ?thesis using MemFree acc by (simp add: heapCall_def memFree_def freeMemoryInternal_def)
  next
    case (Some p)
    with adm MemFree obtain bs i where b: "heapBlocks k = Some bs" and i: "i < length bs"
      and p: "p = blockOffset bs i + HEADER_SIZE"
      by (auto simp: admissible_def split: option.splits)
    from accounted_memFree[OF acc b i] show ?thesis using MemFree Some p by (simp add: heapCall_def)
  qed
next
  case MemCompact
  then show ?thesis using accounted_memCompact[OF acc] by (auto simp: heapCall_def)
qed

lemma heapCall_simps:
  "heapCall k (CreateTask name entry now) = Some (Returns (snd (createTask k name entry now)))"
  "heapCall k (KillTask tid) = Some (Returns (killTask k tid))"
  "memAlloc k size0 = Some (Returns (p, k')) \<Longrightarrow> heapCall k (MemAlloc size0) = Some (Returns k')"
  "heapCall k (MemFree ptr) = Some (memFree k ptr)"
  "heapCall k MemCompact = memCompact k"
  by (simp_all add: heapCall_def)

lemma accounted_empty:
  assumes "heapUsed k = 0" "length (tasks k) = MAX_TASKS" "currentTaskId k < MAX_TASKS"
    "\<forall>t \<in> set (tasks k). memoryUsed t = 0"
  shows "accounted k"
  using assms
  by (intro accountedI[where bs = "[]"]) (simp_all add: heapBlocks_def heapWalk_Nil ownedBytes_Nil)

lemma accounted_bootKernel: "accounted bootKernel"
  by (rule accounted_empty)
     (simp_all add: bootKernel_heap bootKernel_tasks bootKernel_queues task_fields)

lemma heapCall_heap:
  "heapCall bootKernel (MemAlloc 100) = Some (Returns heap1)"
  "heapCall heap1 (MemAlloc 100) = Some (Returns heap2)"
  "heapCall heap2 (MemAlloc 100) = Some (Returns heap3)"
  "heapCall heap3 (MemFree (Some 132)) = Some (Returns heap3f)"
  "heapCall heap3f MemCompact = Some (Returns heap3c)"
  "heapCall heap3c (MemFree (Some 248)) = Some (Returns heap3s)"
  by (simp_all add: heapCall_simps memAlloc_boot memAlloc_heap1 memAlloc_heap2 memFree_heap3
      memCompact_heap3f memFree_heap3c)

lemma tasks_heapState:
  "tasks (heapState h u c) =
     [idleTask\<lparr> memoryUsed := c \<rparr>, freeSlot, freeSlot, freeSlot, freeSlot, freeSlot, freeSlot, freeSlot]"
  by (simp add: heapState_fields bootKernel_tasks)

lemma memoryUsed_slots: "memoryUsed idleTask = 0" "memoryUsed freeSlot = 0" "memoryUsed shellTask = 0"
  "state freeSlot = TASK_EMPTY"
  by (simp_all add: task_fields)

lemma runningKernel_heap:
  "kernelHeap runningKernel = (\<lambda>_. None)" "heapUsed runningKernel = 0"
  "tasks runningKernel =
     [idleTask, shellTask\<lparr> state := TASK_RUNNING, lastRun := 1 \<rparr>,
      freeSlot, freeSlot, freeSlot, freeSlot, freeSlot, freeSlot]"
  by (simp_all add: runningKernel_eq bootKernel_heap)

lemma accounted_runningKernel: "accounted runningKernel"
  by (rule accounted_empty)
     (simp_all add: runningKernel_heap runningKernel_fields memoryUsed_slots)

lemma memAlloc_running: "memAlloc runningKernel 100 = Some (Returns (Some 16, allocKernel))"
  by (simp add: memAlloc_def allocateMemoryInternal_def placeBlock_def Let_def sz_add_def
      runningKernel_heap(1,2) runningKernel_fields clobber_empty allocKernel_def shellBlock_def
      memoryUsed_slots runningKernel_heap(3))

lemma allocKernel_fields:
  "kernelHeap allocKernel = [0 \<mapsto> shellBlock]" "heapUsed allocKernel = 116"
  "tasks allocKernel =
     [idleTask, shellTask\<lparr> state := TASK_RUNNING, lastRun := 1, memoryUsed := 100 \<rparr>,
      freeSlot, freeSlot, freeSlot, freeSlot, freeSlot, freeSlot]"
  by (simp_all add: allocKernel_def runningKernel_heap)

lemma killTask_allocKernel:
  "tasks (killTask allocKernel 1) =
     [idleTask, shellTask\<lparr> state := TASK_EMPTY, lastRun := 1, memoryUsed := 100, taskId := - 1 \<rparr>,
      freeSlot, freeSlot, freeSlot, freeSlot, freeSlot, freeSlot]"
  by (simp add: killTask_frame getTask_def allocKernel_fields shellTask_def)

lemma recycledKernel_fields:
  "kernelHeap recycledKernel = [0 \<mapsto> shellBlock]" "heapUsed recycledKernel = 116"
  "map memoryUsed (tasks recycledKernel) = [0, 0, 0, 0, 0, 0, 0, 0]"
  by (simp_all add: recycledKernel_def createTask_def allocateTaskId_def Let_def upt_conv_Cons
      killTask_allocKernel killTask_frame(1,2) allocKernel_fields captureStackTrace_def
      memoryUsed_slots)

lemma heap3k_fields:
  "kernelHeap heap3k = kernelHeap heap3c" "heapUsed heap3k = heapUsed heap3c"
  by (simp_all add: heap3k_def killTask_frame createTask_def Let_def)

lemma admissible_heap:
  "admissible bootKernel (MemAlloc 100)" "admissible heap1 (MemAlloc 100)"
  "admissible heap2 (MemAlloc 100)" "admissible heap3 (MemFree (Some 132))"
  "admissible heap3f MemCompact" "admissible heap3c (CreateTask name entry now)"
  "admissible k (KillTask 1)"
  by (simp_all add: admissible_def heapBlocks_heap3 blockOffset_def blockA_def upt_conv_Cons
      allocateTaskId_def heap3c_def tasks_heapState memoryUsed_slots)


text \<open>
  Claim C2, amended. From an accounted state, as the state after \<^verbatim>\<open>init\<close> is, every
  admissible run of \<^verbatim>\<open>createTask\<close>, \<^verbatim>\<open>killTask\<close>, \<^verbatim>\<open>memAlloc\<close>, \<^verbatim>\<open>memFree\<close> and \<^verbatim>\<open>memCompact\<close>
  calls returns and ends in an accounted state, and there the sum of \<open>memoryUsed\<close> over
  all task slots is the sum of the sizes of the blocks in use. Admissible are: every
  \<^verbatim>\<open>killTask\<close> and \<^verbatim>\<open>memCompact\<close>, \<^verbatim>\<open>memAlloc\<close> of at most \<open>2 ^ 31\<close> bytes, \<^verbatim>\<open>memFree\<close> of null or
  of the payload address of a block of the heap, and \<^verbatim>\<open>createTask\<close> when the slot it takes
  is charged nothing.
\<close>

theorem memory_accounting:
  assumes "accounted k" "admissibleRun k cs"
  shows "\<exists>k' bs. runCalls k cs = Some (Returns k') \<and> accounted k' \<and> heapBlocks k' = Some bs
           \<and> sum_list (map memoryUsed (tasks k')) = liveBytes bs"
  using assms
proof (induction cs arbitrary: k)
  case Nil
  then show ?case using accounted_sum[of k] by simp
next
  case (Cons c cs)
  from Cons.prems(2) have adm: "admissible k c" by simp
  from accounted_heapCall[OF Cons.prems(1) adm] obtain k1 where
    h: "heapCall k c = Some (Returns k1)" and a1: "accounted k1" by blast
  from Cons.prems(2) h have "admissibleRun k1 cs" by simp
  from Cons.IH[OF a1 this] show ?case using h by simp
qed



text \<open>
  Two runs after which the sums differ, both from accounted states. At boot the idle task
  allocates three blocks of 100 bytes, frees the middle one and compacts the heap: the
  third block moves to offset 116 and its old header stays behind at offset 232, above
  the watermark. Freeing the address \<^verbatim>\<open>memAlloc\<close> returned for it, 248, finds that old
  header in use and refunds 100 bytes, while both blocks of the heap stay in use: 100
  bytes charged, 200 in use. In the second run the shell task allocates 100 bytes and is
  killed; \<^verbatim>\<open>killTask\<close> leaves its block in use, and \<^verbatim>\<open>createTask\<close> hands out the slot with
  \<open>memoryUsed\<close> reset: nothing charged, 100 bytes in use.
\<close>

theorem memory_accounting_counterexample:
  "accounted bootKernel
   \<and> runCalls bootKernel [MemAlloc 100, MemAlloc 100, MemAlloc 100, MemFree (Some 132), MemCompact,
                            MemFree (Some 248)] = Some (Returns heap3s)
   \<and> heapBlocks heap3s = Some [blockA, blockA]
   \<and> liveBytes [blockA, blockA] = 200
   \<and> sum_list (map memoryUsed (tasks heap3s)) = 100
   \<and> accounted runningKernel
   \<and> runCalls runningKernel [MemAlloc 100, KillTask 1, CreateTask ''again'' None 7]
        = Some (Returns recycledKernel)
   \<and> heapBlocks recycledKernel = Some [shellBlock]
   \<and> liveBytes [shellBlock] = 100
   \<and> sum_list (map memoryUsed (tasks recycledKernel)) = 0"
proof -
  have r1: "runCalls bootKernel [MemAlloc 100, MemAlloc 100, MemAlloc 100, MemFree (Some 132),
              MemCompact, MemFree (Some 248)] = Some (Returns heap3s)"
    by (simp add: heapCall_heap)
  have l1: "liveBytes [blockA, blockA] = 200" by (simp add: liveBytes_def blockA_def)
  have m1: "sum_list (map memoryUsed (tasks heap3s)) = 100"
    by (simp add: heap3s_def tasks_heapState memoryUsed_slots)
  have r: "runCalls runningKernel [MemAlloc 100, KillTask 1, CreateTask ''again'' None 7]
             = Some (Returns recycledKernel)"
    by (simp add: heapCall_simps(1,2) heapCall_simps(3)[OF memAlloc_running] recycledKernel_def)
  have b: "heapBlocks recycledKernel = Some [shellBlock]"
    by (simp add: recycledKernel_fields heapBlocks_def heapWalk_Cons heapWalk_Nil shellBlock_def)
  have l: "liveBytes [shellBlock] = 100" by (simp add: liveBytes_def shellBlock_def)
  have m: "sum_list (map memoryUsed (tasks recycledKernel)) = 0"
    by (simp only: recycledKernel_fields) simp
  show ?thesis
    by (simp only: accounted_bootKernel r1 heapBlocks_heap3 l1 m1 accounted_runningKernel r b l m
        simp_thms)
qed


text \<open>
  The theorem at boot, for a run of all five calls: three allocations, the middle block
  freed, a compaction, a task created and killed. The two blocks left hold 200 bytes
  and the idle task is charged 200.
\<close>

theorem memory_accounting_witness:
  "accounted bootKernel
   \<and> admissibleRun bootKernel
         [MemAlloc 100, MemAlloc 100, MemAlloc 100, MemFree (Some 132), MemCompact,
          CreateTask ''shell'' (Some 1) 0, KillTask 1]
   \<and> runCalls bootKernel
         [MemAlloc 100, MemAlloc 100, MemAlloc 100, MemFree (Some 132), MemCompact,
          CreateTask ''shell'' (Some 1) 0, KillTask 1] = Some (Returns heap3k)
   \<and> accounted heap3k
   \<and> heapBlocks heap3k = Some [blockA, blockA]
   \<and> sum_list (map memoryUsed (tasks heap3k)) = 200"
proof -
  let ?cs = "[MemAlloc 100, MemAlloc 100, MemAlloc 100, MemFree (Some 132), MemCompact,
              CreateTask ''shell'' (Some 1) 0, KillTask 1]"
  have adm: "admissibleRun bootKernel ?cs"
    by (simp add: heapCall_heap heapCall_simps(1,2) admissible_heap)
  have run: "runCalls bootKernel ?cs = Some (Returns heap3k)"
    by (simp add: heapCall_heap heapCall_simps(1,2) heap3k_def)
  have b: "heapBlocks heap3k = Some [blockA, blockA]"
    using heapBlocks_heap3(4) by (simp add: heapBlocks_def heap3k_fields)
  have l: "liveBytes [blockA, blockA] = 200" by (simp add: liveBytes_def blockA_def)
  from memory_accounting[OF accounted_bootKernel adm] obtain k' bs where
    r: "runCalls bootKernel ?cs = Some (Returns k')" and a: "accounted k'"
    and h: "heapBlocks k' = Some bs" and e: "sum_list (map memoryUsed (tasks k')) = liveBytes bs"
    by blast
  from r run have k': "k' = heap3k" by simp
  from h b have bs: "bs = [blockA, blockA]" by (simp add: k')
  show ?thesis
    using a e l unfolding k' bs
    by (simp only: accounted_bootKernel adm run b simp_thms)
qed

subsection \<open>C3: the system-call dispatcher\<close>

lemma syscall_display:
  "type \<in> {SYS_DISPLAY_CLEAR, SYS_DISPLAY_PIXEL, SYS_DISPLAY_TEXT, SYS_DISPLAY_RECT, SYS_DISPLAY_UPDATE}
   \<Longrightarrow> syscall hw clock k type arg1 arg2 arg3 arg4 = Some (Returns (SYS_ERR_INVALID_CALL, k, [], NoOut))"
  by (auto simp: syscall_def returnsInt_def)

lemma syscall_get_time_wraps:
  "syscall hw [4294967295] k SYS_GET_TIME arg1 arg2 arg3 arg4 =
     Some (Returns (SYS_ERR_INVALID_CALL, k, [], NoOut))"
  by (simp add: syscall_def returnsInt_def)

text \<open>
  Claim C3: for every kind of the partition, memory \<open>info\<close>, task \<open>create\<close>, \<open>kill\<close> and
  \<open>list\<close>, system \<open>print\<close> and \<open>debug_print\<close> among them, \<^verbatim>\<open>syscall\<close> forwards to the component
  operation and does not return \<^verbatim>\<open>INVALID_CALL\<close>. The enumeration of \<^verbatim>\<open>kernel.h\<close> declares
  these six kinds, and marks only the display kinds as not implemented, but the \<^verbatim>\<open>switch\<close>
  of \<^verbatim>\<open>Kernel::syscall\<close> has no \<^verbatim>\<open>case\<close> for them: whatever the state and the arguments, the
  call takes the \<^verbatim>\<open>default\<close>, returns \<^verbatim>\<open>SYS_ERR_INVALID_CALL\<close> and leaves the kernel state as
  it was.
\<close>

theorem syscall_unimplemented:
  "syscall hw clock k SYS_MEM_INFO arg1 arg2 arg3 arg4 = Some (Returns (SYS_ERR_INVALID_CALL, k, [], NoOut))
   \<and> syscall hw clock k SYS_TASK_CREATE arg1 arg2 arg3 arg4 = Some (Returns (SYS_ERR_INVALID_CALL, k, [], NoOut))
   \<and> syscall hw clock k SYS_TASK_KILL arg1 arg2 arg3 arg4 = Some (Returns (SYS_ERR_INVALID_CALL, k, [], NoOut))
   \<and> syscall hw clock k SYS_TASK_LIST arg1 arg2 arg3 arg4 = Some (Returns (SYS_ERR_INVALID_CALL, k, [], NoOut))
   \<and> syscall hw clock k SYS_PRINT arg1 arg2 arg3 arg4 = Some (Returns (SYS_ERR_INVALID_CALL, k, [], NoOut))
   \<and> syscall hw clock k SYS_DBG_PRINT arg1 arg2 arg3 arg4 = Some (Returns (SYS_ERR_INVALID_CALL, k, [], NoOut))"
  by (simp add: syscall_def returnsInt_def)

end
